theory Spec2Isabelle
  imports Complex_Main "HOL-Library.Sublist"
begin

section \<open>JavaScript strings and numbers\<close>

text \<open>
  A JavaScript string is modelled as a \<^typ>\<open>string\<close>: a list of code units, each below
  \<open>0x100\<close> (the Latin-1 range). The character tables below are the ones that
  \<open>String.prototype.trim\<close>, \<open>toLowerCase\<close> and the regular expression classes
  \<open>\s\<close>, \<open>\d\<close>, \<open>\w\<close> and \<open>.\<close> use on that range.
\<close>

definition space_chars :: "char list" where
  "space_chars = [CHR 0x09, CHR 0x0A, CHR 0x0B, CHR 0x0C, CHR 0x0D, CHR 0x20, CHR 0xA0]"

definition line_terminators :: "char list" where
  "line_terminators = [CHR 0x0A, CHR 0x0D]"

definition digit_chars :: "char list" where
  "digit_chars = ''0123456789''"

definition word_chars :: "char list" where
  "word_chars = ''abcdefghijklmnopqrstuvwxyzABCDEFGHIJKLMNOPQRSTUVWXYZ0123456789_''"

definition upper_chars :: "char list" where
  "upper_chars = ''ABCDEFGHIJKLMNOPQRSTUVWXYZ'' @
     [CHR 0xC0, CHR 0xC1, CHR 0xC2, CHR 0xC3, CHR 0xC4, CHR 0xC5, CHR 0xC6, CHR 0xC7,
      CHR 0xC8, CHR 0xC9, CHR 0xCA, CHR 0xCB, CHR 0xCC, CHR 0xCD, CHR 0xCE, CHR 0xCF,
      CHR 0xD0, CHR 0xD1, CHR 0xD2, CHR 0xD3, CHR 0xD4, CHR 0xD5, CHR 0xD6,
      CHR 0xD8, CHR 0xD9, CHR 0xDA, CHR 0xDB, CHR 0xDC, CHR 0xDD, CHR 0xDE]"

definition lower_chars :: "char list" where
  "lower_chars = ''abcdefghijklmnopqrstuvwxyz'' @
     [CHR 0xE0, CHR 0xE1, CHR 0xE2, CHR 0xE3, CHR 0xE4, CHR 0xE5, CHR 0xE6, CHR 0xE7,
      CHR 0xE8, CHR 0xE9, CHR 0xEA, CHR 0xEB, CHR 0xEC, CHR 0xED, CHR 0xEE, CHR 0xEF,
      CHR 0xF0, CHR 0xF1, CHR 0xF2, CHR 0xF3, CHR 0xF4, CHR 0xF5, CHR 0xF6,
      CHR 0xF8, CHR 0xF9, CHR 0xFA, CHR 0xFB, CHR 0xFC, CHR 0xFD, CHR 0xFE]"

definition is_space :: "char \<Rightarrow> bool" where
  "is_space c = (c \<in> set space_chars)"

definition is_digit :: "char \<Rightarrow> bool" where
  "is_digit c = (c \<in> set digit_chars)"

definition is_word :: "char \<Rightarrow> bool" where
  "is_word c = (c \<in> set word_chars)"

definition lower_char :: "char \<Rightarrow> char" where
  "lower_char c = (case map_of (zip upper_chars lower_chars) c of Some l \<Rightarrow> l | None \<Rightarrow> c)"

text \<open>
  \<open>Canonicalize\<close> of a regular expression with the \<open>i\<close> flag and without the \<open>u\<close>
  flag: the upper-case form when that is a single code unit. The two Latin-1 letters
  whose upper-case form lies outside the range (\<open>0xB5\<close> and \<open>0xFF\<close>) share it with no
  other code unit of the range and are left as they are, as is \<open>0xDF\<close>, whose upper-case
  form has two code units.
\<close>

definition canonicalize :: "char \<Rightarrow> char" where
  "canonicalize c = (case map_of (zip lower_chars upper_chars) c of Some u \<Rightarrow> u | None \<Rightarrow> c)"

definition toLowerCase :: "string \<Rightarrow> string" where
  "toLowerCase s = map lower_char s"

definition trim :: "string \<Rightarrow> string" where
  "trim s = rev (dropWhile is_space (rev (dropWhile is_space s)))"

text \<open>
  A JavaScript number is a finite value, one of the two infinities or NaN. Finite values
  are exact reals: the rounding of IEEE doubles and the overflow of a long digit string
  to Infinity are not modelled.
\<close>

datatype jsnum = Fin real | PosInf | NegInf | NaN

definition isNaN :: "jsnum \<Rightarrow> bool" where
  "isNaN n = (n = NaN)"

fun num_gt :: "jsnum \<Rightarrow> real \<Rightarrow> bool" where
  "num_gt (Fin x) k = (x > k)"
| "num_gt PosInf k = True"
| "num_gt NegInf k = False"
| "num_gt NaN k = False"

text \<open>Division by a finite positive constant.\<close>

fun num_div :: "jsnum \<Rightarrow> real \<Rightarrow> jsnum" where
  "num_div (Fin x) k = Fin (x / k)"
| "num_div PosInf k = PosInf"
| "num_div NegInf k = NegInf"
| "num_div NaN k = NaN"

fun num_neg :: "jsnum \<Rightarrow> jsnum" where
  "num_neg (Fin x) = Fin (- x)"
| "num_neg PosInf = NegInf"
| "num_neg NegInf = PosInf"
| "num_neg NaN = NaN"

subsection \<open>parseFloat\<close>

definition digit_val :: "char \<Rightarrow> nat" where
  "digit_val c = (case map_of (zip digit_chars [0, 1, 2, 3, 4, 5, 6, 7, 8, 9]) c of
                    Some d \<Rightarrow> d | None \<Rightarrow> 0)"

definition digits_val :: "string \<Rightarrow> nat" where
  "digits_val ds = foldl (\<lambda>a d. 10 * a + digit_val d) 0 ds"

definition exp10 :: "int \<Rightarrow> real" where
  "exp10 k = (if 0 \<le> k then 10 ^ nat k else 1 / 10 ^ nat (- k))"

text \<open>The exponent part \<open>e\<close>, \<open>e+\<close> or \<open>e-\<close> with digits; anything else is no exponent.\<close>

definition exponent_part :: "string \<Rightarrow> int" where
  "exponent_part s =
     (case s of
        [] \<Rightarrow> 0
      | e # t \<Rightarrow>
          if e = CHR ''e'' \<or> e = CHR ''E'' then
            (case t of
               [] \<Rightarrow> 0
             | g # u \<Rightarrow>
                 if g = CHR ''-'' then
                   (if takeWhile is_digit u = [] then 0 else - int (digits_val (takeWhile is_digit u)))
                 else if g = CHR ''+'' then
                   (if takeWhile is_digit u = [] then 0 else int (digits_val (takeWhile is_digit u)))
                 else
                   (if takeWhile is_digit t = [] then 0 else int (digits_val (takeWhile is_digit t))))
          else 0)"

text \<open>
  The longest prefix that is an unsigned \<open>StrDecimalLiteral\<close>: \<open>Infinity\<close>, digits with an
  optional fraction, or a fraction alone, each with an optional exponent. No such prefix
  gives NaN.
\<close>

definition unsigned_decimal :: "string \<Rightarrow> jsnum" where
  "unsigned_decimal s =
     (if prefix ''Infinity'' s then PosInf
      else
        let ip = takeWhile is_digit s;
            r1 = dropWhile is_digit s;
            fp = (case r1 of [] \<Rightarrow> [] | d # v \<Rightarrow> if d = CHR ''.'' then takeWhile is_digit v else []);
            r2 = (case r1 of [] \<Rightarrow> [] | d # v \<Rightarrow> if d = CHR ''.'' then dropWhile is_digit v else r1)
        in if ip = [] \<and> fp = [] then NaN
           else Fin ((real (digits_val ip) + real (digits_val fp) / 10 ^ length fp)
                     * exp10 (exponent_part r2)))"

definition parseFloat :: "string \<Rightarrow> jsnum" where
  "parseFloat s =
     (case dropWhile is_space s of
        [] \<Rightarrow> NaN
      | c # t \<Rightarrow>
          if c = CHR ''-'' then num_neg (unsigned_decimal t)
          else if c = CHR ''+'' then unsigned_decimal t
          else unsigned_decimal (c # t))"

section \<open>Regular expressions\<close>

text \<open>
  The regular expressions of the source use literals, character classes, sequence,
  alternation, the greedy \<open>?\<close>, the greedy \<open>*\<close> and \<open>+\<close> on a single character
  class, capture groups, \<open>^\<close> and \<open>\b\<close>. A position is the code unit before it (none at
  index 0) and the rest of the input. The matcher returns every way to match from a
  position, in the order in which a backtracking matcher tries them; the match that
  \<open>exec\<close> reports is the first one.
\<close>

datatype atom = Lit char | OneOf "char list" | NoneOf "char list"

datatype re =
    Atom atom
  | Eps
  | Seq re re
  | Alt re re
  | Opt re
  | Star atom
  | Plus atom
  | Grp nat re
  | Bol
  | Wordb

type_synonym pos = "char option \<times> string"
type_synonym caps = "(nat \<times> string) list"

fun atom_ok :: "bool \<Rightarrow> atom \<Rightarrow> char \<Rightarrow> bool" where
  "atom_ok ic (Lit c) x = (if ic then canonicalize x = canonicalize c else x = c)"
| "atom_ok ic (OneOf cs) x =
     (if ic then canonicalize x \<in> canonicalize ` set cs else x \<in> set cs)"
| "atom_ok ic (NoneOf cs) x =
     (if ic then canonicalize x \<notin> canonicalize ` set cs else x \<notin> set cs)"

fun star_run :: "(char \<Rightarrow> bool) \<Rightarrow> pos \<Rightarrow> pos list" where
  "star_run P (p, []) = [(p, [])]"
| "star_run P (p, x # xs) = (if P x then star_run P (Some x, xs) else []) @ [(p, x # xs)]"

fun plus_run :: "(char \<Rightarrow> bool) \<Rightarrow> pos \<Rightarrow> pos list" where
  "plus_run P (p, []) = []"
| "plus_run P (p, x # xs) = (if P x then star_run P (Some x, xs) else [])"

definition word_before :: "char option \<Rightarrow> bool" where
  "word_before p = (case p of None \<Rightarrow> False | Some x \<Rightarrow> is_word x)"

definition word_after :: "string \<Rightarrow> bool" where
  "word_after s = (case s of [] \<Rightarrow> False | x # _ \<Rightarrow> is_word x)"

fun rx :: "bool \<Rightarrow> re \<Rightarrow> pos \<times> caps \<Rightarrow> (pos \<times> caps) list" where
  "rx ic (Atom a) ((p, s), c) =
     (case s of [] \<Rightarrow> [] | x # xs \<Rightarrow> if atom_ok ic a x then [((Some x, xs), c)] else [])"
| "rx ic Eps st = [st]"
| "rx ic (Seq r1 r2) st = concat (map (rx ic r2) (rx ic r1 st))"
| "rx ic (Alt r1 r2) st = rx ic r1 st @ rx ic r2 st"
| "rx ic (Opt r) st = rx ic r st @ [st]"
| "rx ic (Star a) (q, c) = map (\<lambda>q'. (q', c)) (star_run (atom_ok ic a) q)"
| "rx ic (Plus a) (q, c) = map (\<lambda>q'. (q', c)) (plus_run (atom_ok ic a) q)"
| "rx ic (Grp k r) ((p, s), c) =
     map (\<lambda>((p', s'), c'). ((p', s'), (k, take (length s - length s') s) # c'))
         (rx ic r ((p, s), c))"
| "rx ic Bol ((p, s), c) = (if p = None then [((p, s), c)] else [])"
| "rx ic Wordb ((p, s), c) = (if word_before p \<noteq> word_after s then [((p, s), c)] else [])"

text \<open>
  \<open>exec\<close> from a position: the first match at the earliest start at or after it, as the
  position after the match and the captures.
\<close>

fun search :: "bool \<Rightarrow> re \<Rightarrow> pos \<Rightarrow> (pos \<times> caps) option" where
  "search ic r (p, []) = (case rx ic r ((p, []), []) of [] \<Rightarrow> None | m # _ \<Rightarrow> Some m)"
| "search ic r (p, x # xs) =
     (case rx ic r ((p, x # xs), []) of [] \<Rightarrow> search ic r (Some x, xs) | m # _ \<Rightarrow> Some m)"

text \<open>\<open>re.test(s)\<close> and \<open>s.match(re)\<close> of a regular expression without the \<open>g\<close> flag.\<close>

definition test :: "bool \<Rightarrow> re \<Rightarrow> string \<Rightarrow> bool" where
  "test ic r s = (search ic r (None, s) \<noteq> None)"

definition match :: "bool \<Rightarrow> re \<Rightarrow> string \<Rightarrow> caps option" where
  "match ic r s = map_option snd (search ic r (None, s))"

text \<open>\<open>m[k]\<close>: the text of group \<open>k\<close>, or undefined (\<open>None\<close>).\<close>

definition grp :: "caps \<Rightarrow> nat \<Rightarrow> string option" where
  "grp m k = map_of m k"

fun lit :: "string \<Rightarrow> re" where
  "lit [] = Eps"
| "lit (c # cs) = Seq (Atom (Lit c)) (lit cs)"

fun seqs :: "re list \<Rightarrow> re" where
  "seqs [] = Eps"
| "seqs (r # rs) = Seq r (seqs rs)"

fun alts :: "re \<Rightarrow> re list \<Rightarrow> re" where
  "alts r [] = r"
| "alts r (r' # rs) = Alt r (alts r' rs)"

definition ws :: atom where
  "ws = OneOf space_chars"

definition digit :: atom where
  "digit = OneOf digit_chars"

definition digit_or_dot :: atom where
  "digit_or_dot = OneOf (digit_chars @ ''.'')"

definition any_char :: atom where
  "any_char = NoneOf line_terminators"

section \<open>parseAdjustment\<close>

datatype direction = Up | Down | NoChange

record adj_result =
  direction :: "direction option"
  adjustment :: "jsnum option"

text \<open>\<open>/no.?change/\<close>\<close>

definition noChangeRe :: re where
  "noChangeRe = seqs [lit ''no'', Opt (Atom any_char), lit ''change'']"

text \<open>\<open>/^(up|down)\s+([\d.]+)/\<close>\<close>

definition upDownRe :: re where
  "upDownRe = seqs [Bol, Grp 1 (Alt (lit ''up'') (lit ''down'')), Plus ws, Grp 2 (Plus digit_or_dot)]"

text \<open>\<open>/\bup\b/\<close> and \<open>/\bdown\b/\<close>\<close>

definition upWordRe :: re where
  "upWordRe = seqs [Wordb, lit ''up'', Wordb]"

definition downWordRe :: re where
  "downWordRe = seqs [Wordb, lit ''down'', Wordb]"

text \<open>\<open>parseFloat(m[2])\<close>: an undefined group is converted to the text \<open>undefined\<close>.\<close>

definition parseFloat_grp :: "string option \<Rightarrow> jsnum" where
  "parseFloat_grp g = (case g of None \<Rightarrow> NaN | Some s \<Rightarrow> parseFloat s)"

definition parseAdjustment :: "string \<Rightarrow> adj_result" where
  "parseAdjustment adj =
     (let s = toLowerCase (trim adj) in
      if test False noChangeRe s then \<lparr>direction = Some NoChange, adjustment = Some (Fin 0)\<rparr>
      else
        case match False upDownRe s of
          Some m \<Rightarrow>
            \<lparr>direction = Some (if grp m 1 = Some ''up'' then Up else Down),
             adjustment = Some (parseFloat_grp (grp m 2))\<rparr>
        | None \<Rightarrow>
            if test False upWordRe s then \<lparr>direction = Some Up, adjustment = None\<rparr>
            else if test False downWordRe s then \<lparr>direction = Some Down, adjustment = None\<rparr>
            else \<lparr>direction = None, adjustment = None\<rparr>)"

section \<open>parseRedditPost\<close>

datatype error = TypeError

text \<open>
  The loop \<open>while ((m = re.exec(text)) !== null) body\<close> of a regular expression with
  the \<open>g\<close> flag: each \<open>exec\<close> starts where the last match ended. A match that ends
  where the search started leaves \<open>lastIndex\<close> as it was, and the loop never ends:
  that is the value \<open>None\<close>. An exception thrown by the body ends the loop.
\<close>

function while_exec ::
  "bool \<Rightarrow> re \<Rightarrow> (caps \<Rightarrow> 'st \<Rightarrow> error + 'st) \<Rightarrow> pos \<Rightarrow> 'st \<Rightarrow> (error + 'st) option" where
  "while_exec ic r body q st =
     (case search ic r q of
        None \<Rightarrow> Some (Inr st)
      | Some (q', m) \<Rightarrow>
          (case body m st of
             Inl e \<Rightarrow> Some (Inl e)
           | Inr st' \<Rightarrow>
               if length (snd q') < length (snd q) then while_exec ic r body q' st' else None))"
  by pat_completeness auto
termination
  by (relation "measure (\<lambda>(ic, r, body, q, st). length (snd q))") auto

record slot = adj_result +
  price :: "jsnum option"

record slots =
  gas :: "slot option"
  diesel :: "slot option"

record parsed_post = slots +
  notes' :: "string option"

record post =
  title :: string
  selftext :: "string option"

text \<open>\<open>/\|\s*(regular|gas(?:oline)?|diesel)\s*\|\s*([^|]+)\|\s*([\d.]+)\s*\|/gi\<close>\<close>

definition tableRowRe :: re where
  "tableRowRe =
     seqs [lit ''|'', Star ws,
           Grp 1 (alts (lit ''regular'') [Seq (lit ''gas'') (Opt (lit ''oline'')), lit ''diesel'']),
           Star ws, lit ''|'', Star ws,
           Grp 2 (Plus (NoneOf ''|'')), lit ''|'', Star ws,
           Grp 3 (Plus digit_or_dot), Star ws, lit ''|'']"

text \<open>\<open>priceRaw > 10 ? priceRaw / 100 : priceRaw\<close>\<close>

definition priceInDollars :: "jsnum \<Rightarrow> jsnum" where
  "priceInDollars priceRaw = (if num_gt priceRaw 10 then num_div priceRaw 100 else priceRaw)"

text \<open>
  The slot of a table row, from the adjustment cell and the price group:
  \<open>{ ...parsed, price: isNaN(priceInDollars) ? null : priceInDollars }\<close>.
\<close>

definition row_slot :: "string \<Rightarrow> string option \<Rightarrow> slot" where
  "row_slot adjRaw g3 =
     (let priceRaw = parseFloat_grp g3;
          p = priceInDollars priceRaw;
          parsed = parseAdjustment adjRaw
      in \<lparr>direction = direction parsed, adjustment = adjustment parsed,
          price = (if isNaN p then None else Some p)\<rparr>)"

text \<open>
  The body of the table loop. \<open>tableMatch[1].toLowerCase()\<close> and \<open>adj.trim()\<close> throw
  a TypeError on an undefined group.
\<close>

definition table_row :: "caps \<Rightarrow> slots \<Rightarrow> error + slots" where
  "table_row tableMatch st =
     (case grp tableMatch 1 of
        None \<Rightarrow> Inl TypeError
      | Some t \<Rightarrow>
          (case grp tableMatch 2 of
             None \<Rightarrow> Inl TypeError
           | Some adjRaw \<Rightarrow>
               let typeRaw = toLowerCase t;
                   sl = row_slot adjRaw (grp tableMatch 3)
               in if typeRaw = ''diesel'' then Inr (st\<lparr>diesel := Some sl\<rparr>)
                  else Inr (st\<lparr>gas := Some sl\<rparr>)))"

text \<open>\<open>/\bup\b|increas|higher|rise|raising/\<close> and \<open>/\bdown\b|decreas|lower|drop|fall|reduc/\<close>\<close>

definition upFamilyRe :: re where
  "upFamilyRe = alts upWordRe [lit ''increas'', lit ''higher'', lit ''rise'', lit ''raising'']"

definition downFamilyRe :: re where
  "downFamilyRe =
     alts downWordRe [lit ''decreas'', lit ''lower'', lit ''drop'', lit ''fall'', lit ''reduc'']"

text \<open>\<open>/\$(\d+\.\d{2,3})/g\<close> and \<open>/diesel/\<close>\<close>

definition priceRe :: re where
  "priceRe = seqs [lit ''$'', Grp 1 (seqs [Plus digit, lit ''.'', Atom digit, Atom digit, Opt (Atom digit)])]"

definition dieselRe :: re where
  "dieselRe = lit ''diesel''"

definition free_text_direction :: "string \<Rightarrow> direction option" where
  "free_text_direction textLower =
     (let d0 = None;
          d1 = (if test False upFamilyRe textLower then Some Up else d0);
          d2 = (if test False downFamilyRe textLower then Some Down else d1)
      in if test False noChangeRe textLower then Some NoChange else d2)"

text \<open>\<open>prices.length >= 2 ? prices[1] : prices[0] ?? null\<close>\<close>

definition pick_price :: "jsnum list \<Rightarrow> jsnum option" where
  "pick_price prices =
     (if length prices \<ge> 2 then Some (prices ! 1)
      else (case prices of [] \<Rightarrow> None | p # _ \<Rightarrow> Some p))"

definition free_text :: "string \<Rightarrow> (error + slots) option" where
  "free_text fullText =
     (let textLower = toLowerCase fullText in
      case while_exec False priceRe (\<lambda>pm prices. Inr (prices @ [parseFloat_grp (grp pm 1)]))
             (None, fullText) [] of
        None \<Rightarrow> None
      | Some (Inl e) \<Rightarrow> Some (Inl e)
      | Some (Inr prices) \<Rightarrow>
          let sl = \<lparr>direction = free_text_direction textLower, adjustment = None,
                    price = pick_price prices\<rparr>
          in if test False dieselRe textLower then Some (Inr \<lparr>gas = None, diesel = Some sl\<rparr>)
             else Some (Inr \<lparr>gas = Some sl, diesel = None\<rparr>))"

text \<open>\<open>s.split('\n')\<close> and \<open>lines.join(' ')\<close>\<close>

fun split_on :: "char \<Rightarrow> string \<Rightarrow> string list" where
  "split_on d [] = [[]]"
| "split_on d (x # xs) =
     (if x = d then [] # split_on d xs
      else (case split_on d xs of [] \<Rightarrow> [[x]] | l # ls \<Rightarrow> (x # l) # ls))"

fun join :: "string \<Rightarrow> string list \<Rightarrow> string" where
  "join sep [] = []"
| "join sep [l] = l"
| "join sep (l # l' # ls) = l @ sep @ join sep (l' # ls)"

text \<open>\<open>/^\|/\<close> and \<open>/^:-/\<close>\<close>

definition pipeStartRe :: re where
  "pipeStartRe = seqs [Bol, lit ''|'']"

definition alignStartRe :: re where
  "alignStartRe = seqs [Bol, lit '':-'']"

definition extract_notes :: "string \<Rightarrow> string option" where
  "extract_notes body =
     (let notesLines =
            trim (join '' ''
              (filter (\<lambda>l. \<not> test False pipeStartRe (trim l) \<and> \<not> test False alignStartRe (trim l))
                 (split_on (CHR 0x0A) body)))
      in if length notesLines > 0 then Some (take 500 notesLines) else None)"

text \<open>\<open>post.selftext ?? ''\<close> and \<open>`${post.title} ${selftext}`\<close>\<close>

definition post_selftext :: "post \<Rightarrow> string" where
  "post_selftext p = (case selftext p of None \<Rightarrow> [] | Some s \<Rightarrow> s)"

definition fullText :: "post \<Rightarrow> string" where
  "fullText p = title p @ '' '' @ post_selftext p"

definition parseRedditPost :: "post \<Rightarrow> (error + parsed_post) option" where
  "parseRedditPost p =
     (case while_exec True tableRowRe table_row (None, fullText p) \<lparr>gas = None, diesel = None\<rparr> of
        None \<Rightarrow> None
      | Some (Inl e) \<Rightarrow> Some (Inl e)
      | Some (Inr st) \<Rightarrow>
          (case (if gas st = None \<and> diesel st = None then free_text (fullText p)
                 else Some (Inr st)) of
             None \<Rightarrow> None
           | Some (Inl e) \<Rightarrow> Some (Inl e)
           | Some (Inr st') \<Rightarrow>
               Some (Inr \<lparr>gas = gas st', diesel = diesel st',
                          notes' = extract_notes (post_selftext p)\<rparr>)))"

section \<open>The webhook and the MCP tool\<close>

text \<open>
  A value read by \<open>request.json()\<close>. A property that is absent reads as undefined
  (\<open>None\<close>); of an object the properties are its keys, of any other value but null
  none of the names read by the handlers exists.
\<close>

datatype json = JNull | JBool bool | JNum jsnum | JStr string | JArr "json list"
  | JObj "(string \<times> json) list"

fun get :: "json \<Rightarrow> string \<Rightarrow> json option" where
  "get (JObj kvs) k = map_of kvs k"
| "get v k = None"

fun truthy :: "json \<Rightarrow> bool" where
  "truthy JNull = False"
| "truthy (JBool b) = b"
| "truthy (JNum n) = (n \<noteq> Fin 0 \<and> n \<noteq> NaN)"
| "truthy (JStr s) = (s \<noteq> [])"
| "truthy (JArr xs) = True"
| "truthy (JObj kvs) = True"

text \<open>\<open>typeof v === 'number' && !isNaN(v)\<close>\<close>

fun is_number :: "json \<Rightarrow> bool" where
  "is_number (JNum n) = (\<not> isNaN n)"
| "is_number v = False"

text \<open>\<open>v ?? null\<close>\<close>

definition or_null :: "json option \<Rightarrow> json" where
  "or_null v = (case v of None \<Rightarrow> JNull | Some x \<Rightarrow> x)"

text \<open>
  \<open>JSON.stringify\<close>, as the value that reading the text back gives: a number that is
  not finite is written as null, and a property whose value is undefined is left out.
\<close>

fun stringify :: "json \<Rightarrow> json" where
  "stringify (JNum n) = (case n of Fin x \<Rightarrow> JNum (Fin x) | _ \<Rightarrow> JNull)"
| "stringify (JArr xs) = JArr (map stringify xs)"
| "stringify (JObj kvs) = JObj (map (\<lambda>(k, v). (k, stringify v)) kvs)"
| "stringify v = v"

definition object :: "(string \<times> json option) list \<Rightarrow> json" where
  "object props = JObj (concat (map (\<lambda>(k, v). case v of None \<Rightarrow> [] | Some x \<Rightarrow> [(k, x)]) props))"

record env =
  WEBHOOK_SECRET :: "string option"
  MAX_HISTORY :: "int option"

text \<open>
  \<open>MAX_HISTORY\<close> stands for \<open>parseInt(env.MAX_HISTORY ?? '10', 10)\<close>, \<open>None\<close> for NaN.
  The host gives \<open>new Date().toISOString()\<close> and the conversion \<open>String(v)\<close> of a value
  that is not a string.
\<close>

record host =
  now_iso :: string
  String_of :: "json \<Rightarrow> string"

record kv =
  latest_prediction :: "json option"
  prediction_history :: "json list"

record request =
  secret_param :: bool
  authorization :: "string option"
  json_body :: "json option"

datatype response = Response (status: nat) (payload: json)

text \<open>\<open>history.unshift(prediction); if (history.length > maxHistory) history.splice(maxHistory)\<close>\<close>

definition push_history :: "int option \<Rightarrow> json \<Rightarrow> json list \<Rightarrow> json list" where
  "push_history maxHistory prediction history =
     (let h = prediction # history in
      case maxHistory of
        None \<Rightarrow> h
      | Some k \<Rightarrow>
          if int (length h) > k then
            (if k < 0 then take (nat (max (int (length h) + k) 0)) h else take (nat k) h)
          else h)"

definition writePrediction :: "json \<Rightarrow> env \<Rightarrow> kv \<Rightarrow> kv" where
  "writePrediction prediction e store =
     \<lparr>latest_prediction = Some (stringify prediction),
      prediction_history = push_history (MAX_HISTORY e) (stringify prediction) (prediction_history store)\<rparr>"

definition VALID_DIRECTIONS :: "json list" where
  "VALID_DIRECTIONS = [JStr ''up'', JStr ''down'', JStr ''no-change'']"

text \<open>\<open>list.includes(v)\<close>, where an undefined \<open>v\<close> is in no list of JSON values.\<close>

definition js_includes :: "json list \<Rightarrow> json option \<Rightarrow> bool" where
  "js_includes xs v = (case v of None \<Rightarrow> False | Some x \<Rightarrow> x \<in> set xs)"

definition validateFuelSlot :: "json option \<Rightarrow> string \<Rightarrow> string option" where
  "validateFuelSlot sl name =
     (case sl of
        None \<Rightarrow> None
      | Some v \<Rightarrow>
          if \<not> truthy v then None
          else if \<not> js_includes VALID_DIRECTIONS (get v ''direction'') then
            Some (name @ ''.direction must be one of: up, down, no-change'')
          else if get v ''price'' \<noteq> None \<and> get v ''price'' \<noteq> Some JNull
                  \<and> \<not> is_number (or_null (get v ''price'')) then
            Some (name @ ''.price must be a number if provided'')
          else None)"

text \<open>
  \<open>body.gas ? { direction: body.gas.direction, adjustment: body.gas.adjustment ?? null,
  price: body.gas.price ?? null } : null\<close>
\<close>

definition slot_of :: "json option \<Rightarrow> json" where
  "slot_of sl =
     (case sl of
        None \<Rightarrow> JNull
      | Some v \<Rightarrow>
          if truthy v then
            object [(''direction'', get v ''direction''),
                    (''adjustment'', Some (or_null (get v ''adjustment''))),
                    (''price'', Some (or_null (get v ''price'')))]
          else JNull)"

definition error_response :: "nat \<Rightarrow> string \<Rightarrow> response" where
  "error_response st msg = Response st (stringify (JObj [(''error'', JStr msg)]))"

text \<open>\<open>notes ? String(notes).slice(0, 500) : null\<close>\<close>

definition notes_of :: "host \<Rightarrow> json \<Rightarrow> json" where
  "notes_of h n =
     (if truthy n then JStr (take 500 (case n of JStr s \<Rightarrow> s | _ \<Rightarrow> String_of h n)) else JNull)"

text \<open>
  The two branches of the handler: the slots \<open>(gas, diesel)\<close> or the rejection. The
  dash of the two legacy messages, a code unit above \<open>0xFF\<close>, is written as a hyphen.
\<close>

definition new_format :: "json \<Rightarrow> response + json \<times> json" where
  "new_format b =
     (case validateFuelSlot (get b ''gas'') ''gas'' of
        Some gasErr \<Rightarrow> Inl (error_response 400 gasErr)
      | None \<Rightarrow>
          (case validateFuelSlot (get b ''diesel'') ''diesel'' of
             Some dieselErr \<Rightarrow> Inl (error_response 400 dieselErr)
           | None \<Rightarrow> Inr (slot_of (get b ''gas''), slot_of (get b ''diesel''))))"

definition legacy_direction_msg :: string where
  \<open>legacy_direction_msg = ''Invalid direction - must be "up", "down", or "no-change"''\<close>

definition legacy_fuel_type_msg :: string where
  \<open>legacy_fuel_type_msg = ''Invalid fuel_type - must be "gas" or "diesel"''\<close>

definition legacy_format :: "json \<Rightarrow> response + json \<times> json" where
  "legacy_format b =
     (let direction = get b ''direction'';
          predicted_price = get b ''predicted_price'';
          current_price = get b ''current_price'';
          fuel_type = (case get b ''fuel_type'' of None \<Rightarrow> JStr ''gas'' | Some v \<Rightarrow> v)
      in if \<not> js_includes VALID_DIRECTIONS direction then
           Inl (error_response 400 legacy_direction_msg)
         else if \<not> js_includes [JStr ''gas'', JStr ''diesel''] (Some fuel_type) then
           Inl (error_response 400 legacy_fuel_type_msg)
         else if \<not> is_number (or_null predicted_price) then
           Inl (error_response 400 ''predicted_price must be a number'')
         else if current_price \<noteq> None \<and> \<not> is_number (or_null current_price) then
           Inl (error_response 400 ''current_price must be a number if provided'')
         else
           let sl = object [(''direction'', direction), (''adjustment'', Some JNull),
                            (''price'', predicted_price)]
           in if fuel_type = JStr ''diesel'' then Inr (JNull, sl) else Inr (sl, JNull))"

text \<open>
  \<open>authHeader.startsWith('Bearer ') ? authHeader.slice(7) : ''\<close>, where an absent header
  reads as the empty string.
\<close>

definition bearer_token :: "request \<Rightarrow> string" where
  "bearer_token req =
     (let authHeader = (case authorization req of None \<Rightarrow> [] | Some a \<Rightarrow> a)
      in if prefix ''Bearer '' authHeader then drop 7 authHeader else [])"

text \<open>
  The handler returns the response and the store after it. Destructuring a \<open>null\<close>
  body throws a TypeError, which no handler catches.
\<close>

definition handleWebhook :: "host \<Rightarrow> env \<Rightarrow> request \<Rightarrow> kv \<Rightarrow> error + response \<times> kv" where
  "handleWebhook h e req store =
     (if secret_param req then
        Inr (error_response 400 ''Use Authorization: Bearer header, not ?secret= query param'', store)
      else
        let token = bearer_token req
        in if token = [] \<or> Some token \<noteq> WEBHOOK_SECRET e then
             Inr (error_response 401 ''Unauthorized'', store)
           else
             case json_body req of
               None \<Rightarrow> Inr (error_response 400 ''Invalid JSON'', store)
             | Some JNull \<Rightarrow> Inl TypeError
             | Some b \<Rightarrow>
                 (case (if get b ''gas'' \<noteq> None \<or> get b ''diesel'' \<noteq> None then new_format b
                        else legacy_format b) of
                    Inl r \<Rightarrow> Inr (r, store)
                  | Inr (g, d) \<Rightarrow>
                      let prediction =
                            JObj [(''gas'', g), (''diesel'', d),
                                  (''notes'', notes_of h (or_null (get b ''notes''))),
                                  (''source'', JStr ''webhook''),
                                  (''updated_at'', JStr (now_iso h)),
                                  (''post_id'', JNull)]
                      in Inr (Response 200 (stringify (JObj [(''ok'', JBool True),
                                                             (''prediction'', prediction)])),
                              writePrediction prediction e store)))"

text \<open>
  \<open>post_prediction\<close> of the MCP server returns an object, \<open>{error, status}\<close> or
  \<open>{ok, prediction}\<close>, and writes the store itself.
\<close>

definition post_prediction :: "host \<Rightarrow> env \<Rightarrow> json \<Rightarrow> kv \<Rightarrow> error + json \<times> kv" where
  "post_prediction h e args store =
     (if args = JNull then Inl TypeError
      else
        let direction = get args ''direction'';
            predicted_price = get args ''predicted_price'';
            current_price = get args ''current_price'';
            fuel_type = (case get args ''fuel_type'' of None \<Rightarrow> JStr ''gas'' | Some v \<Rightarrow> v);
            notes = or_null (get args ''notes'');
            secret = or_null (get args ''secret'')
        in if \<not> truthy secret \<or> Some secret \<noteq> map_option JStr (WEBHOOK_SECRET e) then
             Inr (JObj [(''error'', JStr ''Unauthorized''), (''status'', JNum (Fin 401))], store)
           else if \<not> js_includes [JStr ''up'', JStr ''down''] direction then
             Inr (JObj [(''error'', JStr ''Invalid direction''), (''status'', JNum (Fin 400))], store)
           else if \<not> js_includes [JStr ''gas'', JStr ''diesel''] (Some fuel_type) then
             Inr (JObj [(''error'', JStr ''Invalid fuel_type''), (''status'', JNum (Fin 400))], store)
           else if \<not> is_number (or_null predicted_price) then
             Inr (JObj [(''error'', JStr ''predicted_price must be a number''),
                        (''status'', JNum (Fin 400))], store)
           else
             let prediction =
                   object [(''direction'', direction),
                           (''currentPrice'', Some (or_null current_price)),
                           (''predictedPrice'', predicted_price),
                           (''fuelType'', Some fuel_type),
                           (''notes'', Some (notes_of h notes)),
                           (''source'', Some (JStr ''mcp'')),
                           (''updated_at'', Some (JStr (now_iso h))),
                           (''post_id'', Some JNull)]
             in Inr (JObj [(''ok'', JBool True), (''prediction'', prediction)],
                     \<lparr>latest_prediction = Some (stringify prediction),
                      prediction_history =
                        push_history (MAX_HISTORY e) (stringify prediction) (prediction_history store)\<rparr>))"

section \<open>Fixtures and predicates of the statements\<close>

definition test_host :: host where
  "test_host = \<lparr>now_iso = ''2024-11-14T17:00:00.000Z'', String_of = (\<lambda>v. ''[object Object]'')\<rparr>"

definition test_env :: env where
  "test_env = \<lparr>WEBHOOK_SECRET = Some ''test-secret'', MAX_HISTORY = Some 10\<rparr>"

definition empty_kv :: kv where
  "empty_kv = \<lparr>latest_prediction = None, prediction_history = []\<rparr>"

definition test_request :: "string \<Rightarrow> json \<Rightarrow> request" where
  "test_request secret b =
     \<lparr>secret_param = False, authorization = Some (''Bearer '' @ secret), json_body = Some b\<rparr>"

definition response_status :: "error + response \<times> kv \<Rightarrow> nat option" where
  "response_status r = (case r of Inl e \<Rightarrow> None | Inr (resp, store) \<Rightarrow> Some (status resp))"

text \<open>The record stored under \<open>latest_prediction\<close>, and the record that the MCP tool returns.\<close>

definition persisted :: "error + 'a \<times> kv \<Rightarrow> json option" where
  "persisted r = (case r of Inl e \<Rightarrow> None | Inr (x, store) \<Rightarrow> latest_prediction store)"

definition mcp_prediction :: "error + json \<times> kv \<Rightarrow> json option" where
  "mcp_prediction r = (case r of Inl e \<Rightarrow> None | Inr (v, store) \<Rightarrow> get v ''prediction'')"

text \<open>The bearer token is present and is the secret of the environment.\<close>

definition authenticated :: "env \<Rightarrow> request \<Rightarrow> bool" where
  "authenticated e req = (bearer_token req \<noteq> [] \<and> Some (bearer_token req) = WEBHOOK_SECRET e)"

text \<open>The legacy wire shape: neither a \<open>gas\<close> nor a \<open>diesel\<close> key.\<close>

definition legacy_shape :: "json \<Rightarrow> bool" where
  "legacy_shape b = (get b ''gas'' = None \<and> get b ''diesel'' = None)"

definition bad_direction :: "json \<Rightarrow> bool" where
  "bad_direction v = (\<not> js_includes VALID_DIRECTIONS (get v ''direction''))"

text \<open>A price that is present, not null and not a number (NaN counts as no number).\<close>

definition bad_price :: "json option \<Rightarrow> bool" where
  "bad_price v = (v \<noteq> None \<and> v \<noteq> Some JNull \<and> \<not> is_number (or_null v))"

definition bad_slot_price :: "json option \<Rightarrow> bool" where
  "bad_slot_price sl = (case sl of None \<Rightarrow> False | Some v \<Rightarrow> truthy v \<and> bad_price (get v ''price''))"

text \<open>The canonical record: \<open>{gas, diesel, notes, source, updated_at, post_id}\<close> with slots
  \<open>{direction, adjustment, price}\<close> or null.\<close>

definition canonical_slot :: "json \<Rightarrow> bool" where
  "canonical_slot v =
     (case v of
        JNull \<Rightarrow> True
      | JObj kvs \<Rightarrow> map fst kvs = [''direction'', ''adjustment'', ''price'']
                    \<and> js_includes VALID_DIRECTIONS (map_of kvs ''direction'')
      | _ \<Rightarrow> False)"

definition canonical_prediction :: "json \<Rightarrow> bool" where
  "canonical_prediction v =
     (case v of
        JObj kvs \<Rightarrow>
          map fst kvs = [''gas'', ''diesel'', ''notes'', ''source'', ''updated_at'', ''post_id'']
          \<and> canonical_slot (or_null (map_of kvs ''gas''))
          \<and> canonical_slot (or_null (map_of kvs ''diesel''))
      | _ \<Rightarrow> False)"

text \<open>The flat record of the MCP tool.\<close>

definition flat_prediction :: "json \<Rightarrow> bool" where
  "flat_prediction v =
     (case v of
        JObj kvs \<Rightarrow>
          map fst kvs = [''direction'', ''currentPrice'', ''predictedPrice'', ''fuelType'',
                         ''notes'', ''source'', ''updated_at'', ''post_id'']
          \<and> js_includes [JStr ''up'', JStr ''down''] (map_of kvs ''direction'')
      | _ \<Rightarrow> False)"

text \<open>The dual-fuel body with the content of a legacy body.\<close>

definition legacy_as_dual :: "json \<Rightarrow> json" where
  "legacy_as_dual b =
     JObj ([(case get b ''fuel_type'' of
               None \<Rightarrow> ''gas''
             | Some v \<Rightarrow> if v = JStr ''diesel'' then ''diesel'' else ''gas'',
             object [(''direction'', get b ''direction''), (''price'', get b ''predicted_price'')])]
           @ (case get b ''notes'' of None \<Rightarrow> [] | Some n \<Rightarrow> [(''notes'', n)]))"

section \<open>The price normalization\<close>



section \<open>The webhook\<close>

lemmas json_defs = or_null_def js_includes_def VALID_DIRECTIONS_def object_def isNaN_def

lemmas fixture_defs = test_host_def test_env_def empty_kv_def test_request_def


lemma handleWebhook_authenticated:
  assumes "\<not> secret_param req" "authenticated e req" "json_body req = Some b" "b \<noteq> JNull"
  shows "handleWebhook h e req store =
    (case (if legacy_shape b then legacy_format b else new_format b) of
       Inl r \<Rightarrow> Inr (r, store)
     | Inr (g, d) \<Rightarrow>
         let prediction =
               JObj [(''gas'', g), (''diesel'', d),
                     (''notes'', notes_of h (or_null (get b ''notes''))),
                     (''source'', JStr ''webhook''),
                     (''updated_at'', JStr (now_iso h)),
                     (''post_id'', JNull)]
         in Inr (Response 200 (stringify (JObj [(''ok'', JBool True), (''prediction'', prediction)])),
                 writePrediction prediction e store))"
  using assms by (cases b) (auto simp: handleWebhook_def authenticated_def legacy_shape_def Let_def)







lemma status_200_authenticated:
  assumes "response_status (handleWebhook h e req store) = Some 200"
  shows "\<not> secret_param req \<and> authenticated e req \<and> (\<exists>b. json_body req = Some b \<and> b \<noteq> JNull)"
  using assms
  by (auto simp: handleWebhook_def authenticated_def Let_def error_response_def response_status_def
      split: if_splits option.splits json.splits)

lemma format_error_status:
  "legacy_format b = Inl r \<Longrightarrow> status r = 400"
  "new_format b = Inl r \<Longrightarrow> status r = 400"
  by (auto simp: legacy_format_def new_format_def Let_def error_response_def split: if_splits option.splits)

lemma status_200_format:
  assumes "\<not> secret_param req" "authenticated e req" "json_body req = Some b" "b \<noteq> JNull"
    "response_status (handleWebhook h e req store) = Some 200"
  shows "\<exists>g d. (if legacy_shape b then legacy_format b else new_format b) = Inr (g, d)"
proof (cases "if legacy_shape b then legacy_format b else new_format b")
  case (Inl r)
  then have "status r = 400" using format_error_status by (auto split: if_splits)
  with assms(5) Inl show ?thesis
    unfolding handleWebhook_authenticated[OF assms(1-4)] by (simp add: response_status_def)
next
  case (Inr gd)
  then show ?thesis by (cases gd) auto
qed

lemma stringify_slot_of: "validateFuelSlot sl name = None \<Longrightarrow> canonical_slot (stringify (slot_of sl))"
  by (auto simp: validateFuelSlot_def slot_of_def canonical_slot_def json_defs split: option.splits if_splits)

lemma new_format_canonical:
  "new_format b = Inr (g, d) \<Longrightarrow> canonical_slot (stringify g) \<and> canonical_slot (stringify d)"
  by (auto simp: new_format_def stringify_slot_of split: option.splits)

lemma legacy_format_canonical:
  "legacy_format b = Inr (g, d) \<Longrightarrow> canonical_slot (stringify g) \<and> canonical_slot (stringify d)"
  by (auto simp: legacy_format_def Let_def canonical_slot_def json_defs split: option.splits if_splits)

lemma webhook_accepts_canonical:
  assumes "response_status (handleWebhook h e req store) = Some 200"
  shows "\<exists>pred. persisted (handleWebhook h e req store) = Some pred \<and> canonical_prediction pred"
proof -
  from status_200_authenticated[OF assms] obtain b where
    a: "\<not> secret_param req" "authenticated e req" "json_body req = Some b" "b \<noteq> JNull"
    by blast
  from status_200_format[OF a assms] obtain g d where
    gd: "(if legacy_shape b then legacy_format b else new_format b) = Inr (g, d)" by blast
  then have c: "canonical_slot (stringify g) \<and> canonical_slot (stringify d)"
    using new_format_canonical legacy_format_canonical by (auto split: if_splits)
  show ?thesis
    unfolding handleWebhook_authenticated[OF a] gd using c
    by (simp add: persisted_def writePrediction_def canonical_prediction_def or_null_def)
qed

lemma legacy_converges:
  assumes "\<not> secret_param req" "authenticated e req" "json_body req = Some b"
    "legacy_shape b" "response_status (handleWebhook h e req store) = Some 200"
  shows "handleWebhook h e (req\<lparr>json_body := Some (legacy_as_dual b)\<rparr>) store
         = handleWebhook h e req store"
proof -
  have bn: "b \<noteq> JNull"
    using status_200_authenticated[OF assms(5)] assms(3) by auto
  from status_200_format[OF assms(1-3) bn assms(5)] assms(4)
  obtain g d where gd: "legacy_format b = Inr (g, d)" by auto
  then obtain kvs where kvs: "b = JObj kvs"
    by (cases b) (auto simp: legacy_format_def Let_def js_includes_def VALID_DIRECTIONS_def)
  have a': "\<not> secret_param (req\<lparr>json_body := Some (legacy_as_dual b)\<rparr>)"
    "authenticated e (req\<lparr>json_body := Some (legacy_as_dual b)\<rparr>)"
    "json_body (req\<lparr>json_body := Some (legacy_as_dual b)\<rparr>) = Some (legacy_as_dual b)"
    "legacy_as_dual b \<noteq> JNull"
    using assms(1,2) by (auto simp: authenticated_def bearer_token_def legacy_as_dual_def)
  have nl: "\<not> legacy_shape (legacy_as_dual b)"
    by (auto simp: legacy_shape_def legacy_as_dual_def split: option.splits)
  have n: "or_null (get (legacy_as_dual b) ''notes'') = or_null (get b ''notes'')"
    by (auto simp: legacy_as_dual_def or_null_def split: option.splits)
  have f: "new_format (legacy_as_dual b) = Inr (g, d)"
    using gd unfolding kvs
    by (auto simp: legacy_format_def new_format_def legacy_as_dual_def Let_def validateFuelSlot_def
        slot_of_def object_def js_includes_def VALID_DIRECTIONS_def or_null_def
        split: option.splits if_splits json.splits)
  show ?thesis
    unfolding handleWebhook_authenticated[OF a'] handleWebhook_authenticated[OF assms(1,2,3) bn]
    using nl assms(4) gd f n by simp
qed

lemma mcp_accepts_flat:
  assumes "mcp_prediction (post_prediction h e args store) = Some pred"
  shows "flat_prediction pred \<and> persisted (post_prediction h e args store) = Some (stringify pred)"
  using assms
  by (auto simp: post_prediction_def Let_def flat_prediction_def json_defs mcp_prediction_def
      persisted_def split: if_splits option.splits)

lemma mcp_rejects_no_change:
  assumes "get args ''secret'' = Some (JStr s)" "s \<noteq> []" "WEBHOOK_SECRET e = Some s"
    "get args ''direction'' = Some (JStr ''no-change'')"
  shows "post_prediction h e args store =
     Inr (JObj [(''error'', JStr ''Invalid direction''), (''status'', JNum (Fin 400))], store)"
  using assms by (cases args) (auto simp: post_prediction_def Let_def js_includes_def or_null_def)





lemmas wh_eval = handleWebhook_def fixture_defs bearer_token_def json_defs response_status_def
      legacy_format_def new_format_def validateFuelSlot_def slot_of_def Let_def authenticated_def
      legacy_shape_def bad_direction_def bad_slot_price_def bad_price_def error_response_def
      persisted_def writePrediction_def push_history_def




section \<open>The webhook and the MCP tool on the same fields\<close>

text \<open>
  C1. The webhook stores what it accepts, legacy or dual-fuel, as one record with
  \<open>gas\<close> and \<open>diesel\<close> slots, and it accepts the directions up, down and no-change. The
  MCP tool \<open>post_prediction\<close> does not follow it: with the same secret it rejects the
  direction no-change with status 400, which the webhook accepts with status 200, and for
  the direction up it stores under the same key the flat record \<open>{direction,
  currentPrice, predictedPrice, fuelType, notes, source, updated_at, post_id}\<close>, where
  the webhook stores \<open>{gas: {direction, adjustment, price}, diesel: null, ...}\<close> for the
  same fields.
\<close>

theorem post_prediction_flat_record:
  "post_prediction test_host test_env
     (JObj [(''direction'', JStr ''no-change''), (''predicted_price'', JNum (Fin 1.5)),
            (''secret'', JStr ''test-secret'')]) empty_kv
   = Inr (JObj [(''error'', JStr ''Invalid direction''), (''status'', JNum (Fin 400))], empty_kv)
   \<and> response_status (handleWebhook test_host test_env
       (test_request ''test-secret''
         (JObj [(''direction'', JStr ''no-change''), (''predicted_price'', JNum (Fin 1.5))])) empty_kv)
     = Some 200
   \<and> persisted (post_prediction test_host test_env
     (JObj [(''direction'', JStr ''up''), (''predicted_price'', JNum (Fin 1.5)),
            (''secret'', JStr ''test-secret'')]) empty_kv)
     = Some (JObj [(''direction'', JStr ''up''), (''currentPrice'', JNull),
                   (''predictedPrice'', JNum (Fin 1.5)), (''fuelType'', JStr ''gas''),
                   (''notes'', JNull), (''source'', JStr ''mcp''),
                   (''updated_at'', JStr ''2024-11-14T17:00:00.000Z''), (''post_id'', JNull)])
   \<and> persisted (handleWebhook test_host test_env
       (test_request ''test-secret''
         (JObj [(''direction'', JStr ''up''), (''predicted_price'', JNum (Fin 1.5))])) empty_kv)
     = Some (JObj [(''gas'', JObj [(''direction'', JStr ''up''), (''adjustment'', JNull),
                                   (''price'', JNum (Fin 1.5))]),
                   (''diesel'', JNull), (''notes'', JNull), (''source'', JStr ''webhook''),
                   (''updated_at'', JStr ''2024-11-14T17:00:00.000Z''), (''post_id'', JNull)])"
  by (simp add: post_prediction_def wh_eval notes_of_def)

theorem post_prediction_flat_record_witness:
  "\<not> secret_param (test_request ''test-secret''
         (JObj [(''direction'', JStr ''no-change''), (''predicted_price'', JNum (Fin 1.5))]))
   \<and> authenticated test_env (test_request ''test-secret''
         (JObj [(''direction'', JStr ''no-change''), (''predicted_price'', JNum (Fin 1.5))]))
   \<and> legacy_shape (JObj [(''direction'', JStr ''no-change''), (''predicted_price'', JNum (Fin 1.5))])
   \<and> \<not> bad_direction (JObj [(''direction'', JStr ''no-change''), (''predicted_price'', JNum (Fin 1.5))])
   \<and> response_status (handleWebhook test_host test_env
       (test_request ''test-secret''
         (JObj [(''direction'', JStr ''no-change''), (''predicted_price'', JNum (Fin 1.5))])) empty_kv)
     = Some 200
   \<and> post_prediction test_host test_env
     (JObj [(''direction'', JStr ''no-change''), (''predicted_price'', JNum (Fin 1.5)),
            (''secret'', JStr ''test-secret'')]) empty_kv
   = Inr (JObj [(''error'', JStr ''Invalid direction''), (''status'', JNum (Fin 400))], empty_kv)"
proof -
  have a: "\<not> secret_param (test_request ''test-secret''
         (JObj [(''direction'', JStr ''no-change''), (''predicted_price'', JNum (Fin 1.5))]))"
    "authenticated test_env (test_request ''test-secret''
         (JObj [(''direction'', JStr ''no-change''), (''predicted_price'', JNum (Fin 1.5))]))"
    "legacy_shape (JObj [(''direction'', JStr ''no-change''), (''predicted_price'', JNum (Fin 1.5))])"
    "\<not> bad_direction (JObj [(''direction'', JStr ''no-change''), (''predicted_price'', JNum (Fin 1.5))])"
    by (simp_all add: fixture_defs authenticated_def bearer_token_def legacy_shape_def
        bad_direction_def json_defs)
  note t = post_prediction_flat_record
  from a t[THEN conjunct2, THEN conjunct1] t[THEN conjunct1] show ?thesis by (intro conjI)
qed


section \<open>What the matcher computes\<close>

text \<open>
  A declarative reading of the expressions: \<open>mt ic r p u s'\<close> says that \<open>r\<close> can match
  the text \<open>u\<close>, after the code unit \<open>p\<close> and before the rest \<open>s'\<close>. The matcher \<open>rx\<close>
  returns exactly these matches, in the order of backtracking.
\<close>

definition prev :: "char option \<Rightarrow> string \<Rightarrow> char option" where
  "prev p u = (if u = [] then p else Some (last u))"

fun mt :: "bool \<Rightarrow> re \<Rightarrow> char option \<Rightarrow> string \<Rightarrow> string \<Rightarrow> bool" where
  "mt ic (Atom a) p u s' = (case u of [x] \<Rightarrow> atom_ok ic a x | _ \<Rightarrow> False)"
| "mt ic Eps p u s' = (u = [])"
| "mt ic (Seq r1 r2) p u s' =
     (\<exists>k \<in> {..length u}. mt ic r1 p (take k u) (drop k u @ s') \<and> mt ic r2 (prev p (take k u)) (drop k u) s')"
| "mt ic (Alt r1 r2) p u s' = (mt ic r1 p u s' \<or> mt ic r2 p u s')"
| "mt ic (Opt r) p u s' = (u = [] \<or> mt ic r p u s')"
| "mt ic (Star a) p u s' = list_all (atom_ok ic a) u"
| "mt ic (Plus a) p u s' = (u \<noteq> [] \<and> list_all (atom_ok ic a) u)"
| "mt ic (Grp k r) p u s' = mt ic r p u s'"
| "mt ic Bol p u s' = (u = [] \<and> p = None)"
| "mt ic Wordb p u s' = (u = [] \<and> word_before p \<noteq> word_after s')"

lemma prev_Nil [simp]: "prev p [] = p"
  by (simp add: prev_def)

lemma prev_Cons [simp]: "prev p (x # u) = prev (Some x) u"
  by (simp add: prev_def)

lemma prev_append [simp]: "prev p (u @ v) = prev (prev p u) v"
  by (simp add: prev_def)

lemma prev_single: "prev p [x] = Some x"
  by simp

lemma star_run_iff:
  "q \<in> set (star_run P (p, s)) \<longleftrightarrow> (\<exists>u. s = u @ snd q \<and> fst q = prev p u \<and> list_all P u)"
proof (induction s arbitrary: p)
  case Nil
  then show ?case by (cases q) auto
next
  case (Cons x xs)
  show ?case
  proof
    assume "q \<in> set (star_run P (p, x # xs))"
    then consider "P x" "q \<in> set (star_run P (Some x, xs))" | "q = (p, x # xs)"
      by (auto split: if_splits)
    then show "\<exists>u. x # xs = u @ snd q \<and> fst q = prev p u \<and> list_all P u"
    proof cases
      case 1
      then obtain u where "xs = u @ snd q" "fst q = prev (Some x) u" "list_all P u"
        using Cons.IH by blast
      with 1 show ?thesis by (intro exI[of _ "x # u"]) simp
    next
      case 2
      then show ?thesis by (intro exI[of _ "[]"]) simp
    qed
  next
    assume "\<exists>u. x # xs = u @ snd q \<and> fst q = prev p u \<and> list_all P u"
    then obtain u where u: "x # xs = u @ snd q" "fst q = prev p u" "list_all P u" by blast
    show "q \<in> set (star_run P (p, x # xs))"
    proof (cases u)
      case Nil
      with u show ?thesis by (cases q) auto
    next
      case (Cons y v)
      with u have "P x" "xs = v @ snd q" "fst q = prev (Some x) v" "list_all P v" by auto
      then have "q \<in> set (star_run P (Some x, xs))" using Cons.IH by blast
      with \<open>P x\<close> show ?thesis by simp
    qed
  qed
qed

lemma plus_run_iff:
  "q \<in> set (plus_run P (p, s)) \<longleftrightarrow> (\<exists>u. s = u @ snd q \<and> fst q = prev p u \<and> u \<noteq> [] \<and> list_all P u)"
proof (cases s)
  case Nil
  then show ?thesis by auto
next
  case (Cons x xs)
  show ?thesis
  proof
    assume "q \<in> set (plus_run P (p, s))"
    with Cons have "P x" "q \<in> set (star_run P (Some x, xs))" by (auto split: if_splits)
    then obtain u where "xs = u @ snd q" "fst q = prev (Some x) u" "list_all P u"
      using star_run_iff by blast
    with Cons \<open>P x\<close> show "\<exists>u. s = u @ snd q \<and> fst q = prev p u \<and> u \<noteq> [] \<and> list_all P u"
      by (intro exI[of _ "x # u"]) simp
  next
    assume "\<exists>u. s = u @ snd q \<and> fst q = prev p u \<and> u \<noteq> [] \<and> list_all P u"
    then obtain u where u: "s = u @ snd q" "fst q = prev p u" "u \<noteq> []" "list_all P u" by blast
    then obtain y v where "u = y # v" by (cases u) auto
    with u Cons have "P x" "xs = v @ snd q" "fst q = prev (Some x) v" "list_all P v" by auto
    then have "q \<in> set (star_run P (Some x, xs))" using star_run_iff by blast
    with \<open>P x\<close> Cons show "q \<in> set (plus_run P (p, s))" by simp
  qed
qed

lemma mt_Seq_iff:
  "mt ic (Seq r1 r2) p u s' \<longleftrightarrow>
     (\<exists>v w. u = v @ w \<and> mt ic r1 p v (w @ s') \<and> mt ic r2 (prev p v) w s')"
proof
  assume "mt ic (Seq r1 r2) p u s'"
  then obtain k where "k \<le> length u" "mt ic r1 p (take k u) (drop k u @ s')"
    "mt ic r2 (prev p (take k u)) (drop k u) s'" by auto
  then show "\<exists>v w. u = v @ w \<and> mt ic r1 p v (w @ s') \<and> mt ic r2 (prev p v) w s'"
    by (intro exI[of _ "take k u"] exI[of _ "drop k u"]) simp
next
  assume "\<exists>v w. u = v @ w \<and> mt ic r1 p v (w @ s') \<and> mt ic r2 (prev p v) w s'"
  then obtain v w where "u = v @ w" "mt ic r1 p v (w @ s')" "mt ic r2 (prev p v) w s'" by blast
  then show "mt ic (Seq r1 r2) p u s'"
    by (auto intro!: bexI[of _ "length v"])
qed

lemma mt_Atom_iff: "mt ic (Atom a) p u s' \<longleftrightarrow> (\<exists>x. u = [x] \<and> atom_ok ic a x)"
  by (cases u; cases "tl u") auto

lemma rx_iff:
  "(\<exists>c'. ((p', s'), c') \<in> set (rx ic r ((p, s), c))) \<longleftrightarrow>
   (\<exists>u. s = u @ s' \<and> p' = prev p u \<and> mt ic r p u s')"
proof (induction r arbitrary: p s c p' s')
  case (Atom a)
  show ?case
  proof (cases s)
    case Nil
    then show ?thesis unfolding mt_Atom_iff by auto
  next
    case (Cons x xs)
    then show ?thesis
      unfolding mt_Atom_iff by (auto simp: Cons_eq_append_conv)
  qed
next
  case Eps
  then show ?case by auto
next
  case (Seq r1 r2)
  show ?case
  proof
    assume "\<exists>c'. ((p', s'), c') \<in> set (rx ic (Seq r1 r2) ((p, s), c))"
    then obtain c' p1 s1 c1 where 1: "((p1, s1), c1) \<in> set (rx ic r1 ((p, s), c))"
      and 2: "((p', s'), c') \<in> set (rx ic r2 ((p1, s1), c1))" by auto
    from 1 Seq.IH(1) obtain v where v: "s = v @ s1" "p1 = prev p v" "mt ic r1 p v s1" by blast
    from 2 Seq.IH(2) obtain w where w: "s1 = w @ s'" "p' = prev p1 w" "mt ic r2 p1 w s'" by blast
    from v w show "\<exists>u. s = u @ s' \<and> p' = prev p u \<and> mt ic (Seq r1 r2) p u s'"
      by (intro exI[of _ "v @ w"]) (auto simp: mt_Seq_iff simp del: mt.simps)
  next
    assume "\<exists>u. s = u @ s' \<and> p' = prev p u \<and> mt ic (Seq r1 r2) p u s'"
    then obtain v w where u: "s = (v @ w) @ s'" "p' = prev p (v @ w)"
      "mt ic r1 p v (w @ s')" "mt ic r2 (prev p v) w s'"
      unfolding mt_Seq_iff by blast
    from u(1,3) Seq.IH(1)[of "prev p v" "w @ s'" p s c] obtain c1 where
      1: "((prev p v, w @ s'), c1) \<in> set (rx ic r1 ((p, s), c))" by auto
    from u(2,4) Seq.IH(2)[of p' s' "prev p v" "w @ s'" c1] obtain c' where
      2: "((p', s'), c') \<in> set (rx ic r2 ((prev p v, w @ s'), c1))" by auto
    from 1 2 show "\<exists>c'. ((p', s'), c') \<in> set (rx ic (Seq r1 r2) ((p, s), c))"
      by (auto intro!: exI[of _ c'] bexI[of _ "((prev p v, w @ s'), c1)"])
  qed
next
  case (Alt r1 r2)
  then show ?case by (simp add: ex_disj_distrib) blast
next
  case (Opt r)
  have "(\<exists>c'. ((p', s'), c') \<in> set (rx ic (Opt r) ((p, s), c)))
        \<longleftrightarrow> (\<exists>c'. ((p', s'), c') \<in> set (rx ic r ((p, s), c))) \<or> (p' = p \<and> s' = s)"
    by auto
  also have "\<dots> \<longleftrightarrow> (\<exists>u. s = u @ s' \<and> p' = prev p u \<and> mt ic r p u s') \<or> (p' = p \<and> s' = s)"
    using Opt.IH by simp
  also have "\<dots> \<longleftrightarrow> (\<exists>u. s = u @ s' \<and> p' = prev p u \<and> mt ic (Opt r) p u s')"
    by auto
  finally show ?case .
next
  case (Star a)
  have "(\<exists>c'. ((p', s'), c') \<in> set (rx ic (Star a) ((p, s), c)))
        \<longleftrightarrow> (p', s') \<in> set (star_run (atom_ok ic a) (p, s))" by auto
  then show ?case unfolding star_run_iff by auto
next
  case (Plus a)
  have "(\<exists>c'. ((p', s'), c') \<in> set (rx ic (Plus a) ((p, s), c)))
        \<longleftrightarrow> (p', s') \<in> set (plus_run (atom_ok ic a) (p, s))" by auto
  then show ?case unfolding plus_run_iff by auto
next
  case (Grp k r)
  have "(\<exists>c'. ((p', s'), c') \<in> set (rx ic (Grp k r) ((p, s), c)))
        \<longleftrightarrow> (\<exists>c'. ((p', s'), c') \<in> set (rx ic r ((p, s), c)))"
    by (auto simp: image_iff split: prod.splits) force
  then show ?case using Grp.IH by simp
next
  case Bol
  then show ?case by auto
next
  case Wordb
  then show ?case by auto
qed


lemma rx_nonempty_iff:
  "rx ic r ((p, s), c) \<noteq> [] \<longleftrightarrow> (\<exists>u s'. s = u @ s' \<and> mt ic r p u s')"
proof -
  have "rx ic r ((p, s), c) \<noteq> [] \<longleftrightarrow> (\<exists>p' s' c'. ((p', s'), c') \<in> set (rx ic r ((p, s), c)))"
  proof
    assume "rx ic r ((p, s), c) \<noteq> []"
    then obtain m where "m \<in> set (rx ic r ((p, s), c))"
      by (cases "rx ic r ((p, s), c)") auto
    moreover obtain p' s' c' where "m = ((p', s'), c')"
      by (cases m, cases "fst m") auto
    ultimately show "\<exists>p' s' c'. ((p', s'), c') \<in> set (rx ic r ((p, s), c))"
      by blast
  qed auto
  also have "\<dots> \<longleftrightarrow> (\<exists>p' s' u. s = u @ s' \<and> p' = prev p u \<and> mt ic r p u s')"
    by (simp only: rx_iff)
  also have "\<dots> \<longleftrightarrow> (\<exists>u s'. s = u @ s' \<and> mt ic r p u s')"
    by auto
  finally show ?thesis .
qed

lemma search_None_iff:
  "search ic r (p, s) = None \<longleftrightarrow>
     (\<forall>pre post. s = pre @ post \<longrightarrow> rx ic r ((prev p pre, post), []) = [])"
proof (induction s arbitrary: p)
  case Nil
  then show ?case by (auto split: list.splits)
next
  case (Cons x xs)
  have "search ic r (p, x # xs) = None \<longleftrightarrow>
          rx ic r ((p, x # xs), []) = [] \<and> search ic r (Some x, xs) = None"
    by (auto split: list.splits)
  also have "\<dots> \<longleftrightarrow> rx ic r ((p, x # xs), []) = []
      \<and> (\<forall>pre post. xs = pre @ post \<longrightarrow> rx ic r ((prev (Some x) pre, post), []) = [])"
    using Cons.IH by simp
  also have "\<dots> \<longleftrightarrow> (\<forall>pre post. x # xs = pre @ post \<longrightarrow> rx ic r ((prev p pre, post), []) = [])"
  proof (intro iffI allI impI)
    fix pre post
    assume a: "rx ic r ((p, x # xs), []) = []
      \<and> (\<forall>pre post. xs = pre @ post \<longrightarrow> rx ic r ((prev (Some x) pre, post), []) = [])"
      and b: "x # xs = pre @ post"
    show "rx ic r ((prev p pre, post), []) = []"
    proof (cases pre)
      case Nil
      with a b show ?thesis by simp
    next
      case (Cons y ys)
      with a b show ?thesis by auto
    qed
  next
    assume a: "\<forall>pre post. x # xs = pre @ post \<longrightarrow> rx ic r ((prev p pre, post), []) = []"
    have 1: "rx ic r ((p, x # xs), []) = []" using a[rule_format, of "[]" "x # xs"] by simp
    have 2: "\<forall>pre post. xs = pre @ post \<longrightarrow> rx ic r ((prev (Some x) pre, post), []) = []"
    proof (intro allI impI)
      fix pre post assume "xs = pre @ post"
      then show "rx ic r ((prev (Some x) pre, post), []) = []"
        using a[rule_format, of "x # pre" post] by simp
    qed
    from 1 2 show "rx ic r ((p, x # xs), []) = []
      \<and> (\<forall>pre post. xs = pre @ post \<longrightarrow> rx ic r ((prev (Some x) pre, post), []) = [])" by simp
  qed
  finally show ?case .
qed

lemma test_iff:
  "test ic r s \<longleftrightarrow> (\<exists>pre u post. s = pre @ u @ post \<and> mt ic r (prev None pre) u post)"
proof -
  have "test ic r s \<longleftrightarrow> (\<exists>pre post. s = pre @ post \<and> rx ic r ((prev None pre, post), []) \<noteq> [])"
    unfolding test_def search_None_iff by auto
  also have "\<dots> \<longleftrightarrow> (\<exists>pre post u s'. s = pre @ post \<and> post = u @ s' \<and> mt ic r (prev None pre) u s')"
    unfolding rx_nonempty_iff by auto
  also have "\<dots> \<longleftrightarrow> (\<exists>pre u post. s = pre @ u @ post \<and> mt ic r (prev None pre) u post)"
    by auto
  finally show ?thesis .
qed

text \<open>The match that \<open>search\<close> reports is the first match at some position of the input.\<close>

lemma search_Some:
  assumes "search ic r (p, s) = Some m"
  shows "\<exists>pre post ms. s = pre @ post \<and> rx ic r ((prev p pre, post), []) = m # ms"
  using assms
proof (induction s arbitrary: p)
  case Nil
  then show ?case by (auto split: list.splits)
next
  case (Cons x xs)
  show ?case
  proof (cases "rx ic r ((p, x # xs), [])")
    case Nil
    with Cons.prems have "search ic r (Some x, xs) = Some m" by simp
    from Cons.IH[OF this] obtain pre post ms where
      "xs = pre @ post" "rx ic r ((prev (Some x) pre, post), []) = m # ms" by blast
    then show ?thesis
      by (intro exI[of _ "x # pre"] exI[of _ post] exI[of _ ms]) simp
  next
    case (Cons m' ms)
    with Cons.prems have "m' = m" by simp
    with Cons show ?thesis
      by (intro exI[of _ "[]"] exI[of _ "x # xs"] exI[of _ ms]) simp
  qed
qed

subsection \<open>Progress\<close>

fun nonempty :: "re \<Rightarrow> bool" where
  "nonempty (Atom a) = True"
| "nonempty Eps = False"
| "nonempty (Seq r1 r2) = (nonempty r1 \<or> nonempty r2)"
| "nonempty (Alt r1 r2) = (nonempty r1 \<and> nonempty r2)"
| "nonempty (Opt r) = False"
| "nonempty (Star a) = False"
| "nonempty (Plus a) = True"
| "nonempty (Grp k r) = nonempty r"
| "nonempty Bol = False"
| "nonempty Wordb = False"

lemma mt_nonempty: "nonempty r \<Longrightarrow> mt ic r p u s' \<Longrightarrow> u \<noteq> []"
proof (induction r arbitrary: p u s')
  case (Seq r1 r2)
  from Seq.prems(2) obtain v w where vw: "u = v @ w" "mt ic r1 p v (w @ s')"
    "mt ic r2 (prev p v) w s'" unfolding mt_Seq_iff by blast
  from Seq.prems(1) have "nonempty r1 \<or> nonempty r2" by simp
  then show ?case
  proof
    assume "nonempty r1"
    from Seq.IH(1)[OF this vw(2)] vw(1) show ?thesis by simp
  next
    assume "nonempty r2"
    from Seq.IH(2)[OF this vw(3)] vw(1) show ?thesis by simp
  qed
next
  case (Alt r1 r2)
  from Alt.prems have "nonempty r1" "nonempty r2" "mt ic r1 p u s' \<or> mt ic r2 p u s'" by simp_all
  then show ?case using Alt.IH by blast
qed (auto simp: mt_Atom_iff simp del: mt.simps(1))

lemma rx_shorter:
  assumes "((p', s'), c') \<in> set (rx ic r ((p, s), c))"
  shows "length s' \<le> length s" and "nonempty r \<Longrightarrow> length s' < length s"
proof -
  from assms have "\<exists>c'. ((p', s'), c') \<in> set (rx ic r ((p, s), c))" by (rule exI)
  then obtain u where u: "s = u @ s'" "mt ic r p u s'" unfolding rx_iff by auto
  then show "length s' \<le> length s" by simp
  assume "nonempty r"
  from mt_nonempty[OF this u(2)] u(1) show "length s' < length s" by simp
qed

lemma search_shorter:
  assumes "search ic r q = Some (q', m)"
  shows "length (snd q') \<le> length (snd q)" and "nonempty r \<Longrightarrow> length (snd q') < length (snd q)"
proof -
  obtain p s where q: "q = (p, s)" by (cases q)
  obtain p' s' where q': "q' = (p', s')" by (cases q')
  from search_Some[OF assms[unfolded q q']] obtain pre post ms where
    1: "s = pre @ post" "rx ic r ((prev p pre, post), []) = ((p', s'), m) # ms" by auto
  then have 2: "((p', s'), m) \<in> set (rx ic r ((prev p pre, post), []))" by simp
  from rx_shorter(1)[OF 2] 1 q q' show "length (snd q') \<le> length (snd q)" by simp
  assume "nonempty r"
  from rx_shorter(2)[OF 2 this] 1 q q' show "length (snd q') < length (snd q)" by simp
qed


subsection \<open>Captures\<close>

text \<open>The groups that take part in every match, and the texts that a group can capture.\<close>

fun must_groups :: "re \<Rightarrow> nat list" where
  "must_groups (Grp k r) = k # must_groups r"
| "must_groups (Seq r1 r2) = must_groups r1 @ must_groups r2"
| "must_groups (Alt r1 r2) = filter (\<lambda>k. k \<in> set (must_groups r2)) (must_groups r1)"
| "must_groups r = []"

fun cap_ok :: "bool \<Rightarrow> re \<Rightarrow> nat \<Rightarrow> string \<Rightarrow> bool" where
  "cap_ok ic (Grp j r) k u = ((j = k \<and> (\<exists>p s'. mt ic r p u s')) \<or> cap_ok ic r k u)"
| "cap_ok ic (Seq r1 r2) k u = (cap_ok ic r1 k u \<or> cap_ok ic r2 k u)"
| "cap_ok ic (Alt r1 r2) k u = (cap_ok ic r1 k u \<or> cap_ok ic r2 k u)"
| "cap_ok ic (Opt r) k u = cap_ok ic r k u"
| "cap_ok ic r k u = False"

lemma rx_caps:
  assumes "m \<in> set (rx ic r (q, c))"
  shows "\<exists>new. snd m = new @ c \<and> set (must_groups r) \<subseteq> fst ` set new
               \<and> (\<forall>(k, u) \<in> set new. cap_ok ic r k u)"
  using assms
proof (induction r arbitrary: q c m)
  case (Seq r1 r2)
  from Seq.prems obtain m1 where 1: "m1 \<in> set (rx ic r1 (q, c))"
    and 2: "m \<in> set (rx ic r2 m1)" by auto
  from Seq.IH(1)[OF 1] obtain n1 where n1: "snd m1 = n1 @ c"
    "set (must_groups r1) \<subseteq> fst ` set n1" "\<forall>(k, u) \<in> set n1. cap_ok ic r1 k u" by blast
  from 2 have "m \<in> set (rx ic r2 (fst m1, snd m1))" by simp
  from Seq.IH(2)[OF this] obtain n2 where n2: "snd m = n2 @ snd m1"
    "set (must_groups r2) \<subseteq> fst ` set n2" "\<forall>(k, u) \<in> set n2. cap_ok ic r2 k u" by blast
  from n1 n2 show ?case
    by (intro exI[of _ "n2 @ n1"]) (auto simp: image_Un)
next
  case (Alt r1 r2)
  from Alt.prems consider "m \<in> set (rx ic r1 (q, c))" | "m \<in> set (rx ic r2 (q, c))" by auto
  then show ?case
  proof cases
    case 1
    from Alt.IH(1)[OF 1] obtain n where "snd m = n @ c"
      "set (must_groups r1) \<subseteq> fst ` set n" "\<forall>(k, u) \<in> set n. cap_ok ic r1 k u" by blast
    then show ?thesis by (intro exI[of _ n]) auto
  next
    case 2
    from Alt.IH(2)[OF 2] obtain n where "snd m = n @ c"
      "set (must_groups r2) \<subseteq> fst ` set n" "\<forall>(k, u) \<in> set n. cap_ok ic r2 k u" by blast
    then show ?thesis by (intro exI[of _ n]) auto
  qed
next
  case (Opt r)
  from Opt.prems consider "m \<in> set (rx ic r (q, c))" | "m = (q, c)" by auto
  then show ?case
  proof cases
    case 1
    from Opt.IH[OF 1] obtain n where "snd m = n @ c" "\<forall>(k, u) \<in> set n. cap_ok ic r k u" by blast
    then show ?thesis by (intro exI[of _ n]) auto
  next
    case 2
    then show ?thesis by (intro exI[of _ "[]"]) auto
  qed
next
  case (Grp j r)
  obtain p s where q: "q = (p, s)" by (cases q)
  from Grp.prems q obtain p' s' c' where m': "((p', s'), c') \<in> set (rx ic r ((p, s), c))"
    and m: "m = ((p', s'), (j, take (length s - length s') s) # c')" by auto
  from Grp.IH[OF m'[folded q]] obtain n where n: "c' = n @ c"
    "set (must_groups r) \<subseteq> fst ` set n" "\<forall>(k, u) \<in> set n. cap_ok ic r k u" by auto
  from m' have "\<exists>c'. ((p', s'), c') \<in> set (rx ic r ((p, s), c))" by (rule exI)
  then obtain u where u: "s = u @ s'" "mt ic r p u s'" unfolding rx_iff by auto
  then have "take (length s - length s') s = u" by simp
  with u m n show ?case
    by (intro exI[of _ "(j, u) # n"]) auto
next
  case (Atom a)
  obtain p s where "q = (p, s)" by (cases q)
  with Atom show ?case by (auto split: list.splits if_splits)
next
  case Eps
  then show ?case by auto
next
  case (Star a)
  then show ?case by auto
next
  case (Plus a)
  then show ?case by auto
next
  case Bol
  obtain p s where "q = (p, s)" by (cases q)
  with Bol show ?case by (auto split: if_splits)
next
  case Wordb
  obtain p s where "q = (p, s)" by (cases q)
  with Wordb show ?case by (auto split: if_splits)
qed

lemma search_caps:
  assumes "search ic r q = Some (q', m)"
  shows "k \<in> set (must_groups r) \<Longrightarrow> \<exists>u. grp m k = Some u"
    and "grp m k = Some u \<Longrightarrow> cap_ok ic r k u"
proof -
  obtain p s where q: "q = (p, s)" by (cases q)
  from search_Some[OF assms[unfolded q]] obtain pre post ms where
    "rx ic r ((prev p pre, post), []) = (q', m) # ms" by auto
  then have "(q', m) \<in> set (rx ic r ((prev p pre, post), []))" by simp
  from rx_caps[OF this] have m: "set (must_groups r) \<subseteq> fst ` set m"
    "\<forall>(k, u) \<in> set m. cap_ok ic r k u" by auto
  show "\<exists>u. grp m k = Some u" if "k \<in> set (must_groups r)"
  proof -
    from that m(1) have "k \<in> fst ` set m" by blast
    then show ?thesis unfolding grp_def by (cases "map_of m k") (auto simp: map_of_eq_None_iff)
  qed
  show "cap_ok ic r k u" if "grp m k = Some u"
  proof -
    from that have "(k, u) \<in> set m" unfolding grp_def by (rule map_of_SomeD)
    with m(2) show ?thesis by auto
  qed
qed

subsection \<open>The exec loop\<close>

text \<open>The captures of the successive matches of the loop, in the order of the input.\<close>

function exec_all :: "bool \<Rightarrow> re \<Rightarrow> pos \<Rightarrow> caps list" where
  "exec_all ic r q =
     (case search ic r q of
        None \<Rightarrow> []
      | Some (q', m) \<Rightarrow>
          if length (snd q') < length (snd q) then m # exec_all ic r q' else [m])"
  by pat_completeness auto
termination
  by (relation "measure (\<lambda>(ic, r, q). length (snd q))") auto

fun run_body :: "(caps \<Rightarrow> 'st \<Rightarrow> error + 'st) \<Rightarrow> caps list \<Rightarrow> 'st \<Rightarrow> error + 'st" where
  "run_body body [] st = Inr st"
| "run_body body (m # ms) st =
     (case body m st of Inl e \<Rightarrow> Inl e | Inr st' \<Rightarrow> run_body body ms st')"

declare exec_all.simps [simp del] while_exec.simps [simp del]

lemma while_exec_run_body:
  "nonempty r \<Longrightarrow> while_exec ic r body q st = Some (run_body body (exec_all ic r q) st)"
proof (induction ic r body q st rule: while_exec.induct)
  case (1 ic r body q st)
  show ?case
  proof (cases "search ic r q")
    case None
    then show ?thesis by (simp add: while_exec.simps[of ic r body q] exec_all.simps[of ic r q])
  next
    case (Some a)
    obtain q' m where a: "a = (q', m)" by (cases a)
    from search_shorter(2)[OF Some[unfolded a] "1.prems"]
    have lt: "length (snd q') < length (snd q)" .
    show ?thesis
    proof (cases "body m st")
      case (Inl e)
      with Some a lt show ?thesis
        by (simp add: while_exec.simps[of ic r body q] exec_all.simps[of ic r q])
    next
      case (Inr st')
      from "1.IH"[OF Some a[symmetric] Inr lt "1.prems"] Some a lt Inr show ?thesis
        by (simp add: while_exec.simps[of ic r body q] exec_all.simps[of ic r q])
    qed
  qed
qed

lemma exec_all_caps:
  assumes "m \<in> set (exec_all ic r q)"
  shows "k \<in> set (must_groups r) \<Longrightarrow> \<exists>u. grp m k = Some u"
    and "grp m k = Some u \<Longrightarrow> cap_ok ic r k u"
proof -
  have "\<exists>q0 q'. search ic r q0 = Some (q', m)" using assms
  proof (induction ic r q rule: exec_all.induct)
    case (1 ic r q)
    show ?case
    proof (cases "search ic r q")
      case None
      with 1 show ?thesis by (simp add: exec_all.simps[of ic r q])
    next
      case (Some a)
      obtain q' m' where a: "a = (q', m')" by (cases a)
      show ?thesis
      proof (cases "m = m'")
        case True
        with Some a show ?thesis by blast
      next
        case False
        with 1(2) Some a have lt: "length (snd q') < length (snd q)"
          and "m \<in> set (exec_all ic r q')"
          by (auto simp: exec_all.simps[of ic r q] split: if_splits)
        with 1(1)[OF Some a[symmetric] lt] show ?thesis by blast
      qed
    qed
  qed
  then obtain q0 q' where s: "search ic r q0 = Some (q', m)" by blast
  from search_caps(1)[OF s] show "k \<in> set (must_groups r) \<Longrightarrow> \<exists>u. grp m k = Some u" .
  from search_caps(2)[OF s] show "grp m k = Some u \<Longrightarrow> cap_ok ic r k u" .
qed


subsection \<open>Literals and the expressions of the parser\<close>

lemmas char_defs = space_chars_def line_terminators_def digit_chars_def word_chars_def
  upper_chars_def lower_chars_def is_space_def is_digit_def is_word_def lower_char_def
  canonicalize_def

lemma lower_canon: "lower_char (canonicalize x) = lower_char x"
proof (cases "x \<in> set lower_chars")
  case True
  then show ?thesis
    by (simp add: lower_chars_def) (elim disjE; simp add: canonicalize_def lower_char_def upper_chars_def lower_chars_def)
next
  case False
  then have "map_of (zip lower_chars upper_chars) x = None"
    by (simp add: map_of_eq_None_iff upper_chars_def lower_chars_def)
  then show ?thesis by (simp add: canonicalize_def)
qed


lemma toLowerCase_canon:
  assumes "list_all2 (\<lambda>x c. canonicalize x = canonicalize c) u w"
  shows "toLowerCase u = toLowerCase w"
  using assms
proof (induction u w rule: list_all2_induct)
  case Nil
  then show ?case by (simp add: toLowerCase_def)
next
  case (Cons x xs y ys)
  from Cons(1) have "lower_char x = lower_char y"
    using lower_canon[of x] lower_canon[of y] by simp
  with Cons(3) show ?case by (simp add: toLowerCase_def)
qed

declare mt.simps(1,3) [simp del]

lemma mt_Cons_lit:
  "mt ic (Seq (Atom a) r) p u s' \<longleftrightarrow>
     (\<exists>x xs. u = x # xs \<and> atom_ok ic a x \<and> mt ic r (Some x) xs s')"
proof
  assume "mt ic (Seq (Atom a) r) p u s'"
  then obtain v w y where "u = v @ w" "v = [y]" "atom_ok ic a y" "mt ic r (prev p v) w s'"
    unfolding mt_Seq_iff mt_Atom_iff by blast
  then show "\<exists>x xs. u = x # xs \<and> atom_ok ic a x \<and> mt ic r (Some x) xs s'" by simp
next
  assume "\<exists>x xs. u = x # xs \<and> atom_ok ic a x \<and> mt ic r (Some x) xs s'"
  then obtain x xs where "u = x # xs" "atom_ok ic a x" "mt ic r (Some x) xs s'" by blast
  then have "u = [x] @ xs \<and> mt ic (Atom a) p [x] (xs @ s') \<and> mt ic r (prev p [x]) xs s'"
    by (simp add: mt_Atom_iff)
  then show "mt ic (Seq (Atom a) r) p u s'" unfolding mt_Seq_iff by blast
qed

lemma mt_lit:
  "mt ic (lit w) p u s' \<longleftrightarrow> list_all2 (\<lambda>x c. atom_ok ic (Lit c) x) u w"
proof (induction w arbitrary: p u)
  case Nil
  then show ?case by simp
next
  case (Cons c cs)
  show ?case
    by (cases u) (simp_all add: mt_Cons_lit Cons.IH)
qed

lemma mt_lit_False [simp]: "mt False (lit w) p u s' \<longleftrightarrow> u = w"
  unfolding mt_lit by (simp add: list_all2_eq[symmetric])

lemma mt_lit_True: "mt True (lit w) p u s' \<Longrightarrow> toLowerCase u = toLowerCase w"
  unfolding mt_lit by (rule toLowerCase_canon) simp

lemma cap_ok_lit [simp]: "cap_ok ic (lit w) k u = False"
  by (induction w) auto

lemma must_groups_lit [simp]: "must_groups (lit w) = []"
  by (induction w) auto

lemma nonempty_lit [simp]: "nonempty (lit w) \<longleftrightarrow> w \<noteq> []"
  by (induction w) auto

lemma nonempty_tableRowRe: "nonempty tableRowRe"
  by (simp add: tableRowRe_def)

lemma nonempty_priceRe: "nonempty priceRe"
  by (simp add: priceRe_def)

lemma must_groups_tableRowRe: "must_groups tableRowRe = [1, 2, 3]"
  by (simp add: tableRowRe_def)

lemma must_groups_priceRe: "must_groups priceRe = [1]"
  by (simp add: priceRe_def)

lemma must_groups_upDownRe: "must_groups upDownRe = [1, 2]"
  by (simp add: upDownRe_def)

lemma cap_tableRowRe_1:
  assumes "cap_ok True tableRowRe 1 u"
  shows "toLowerCase u \<in> {''regular'', ''gas'', ''gasoline'', ''diesel''}"
proof -
  from assms obtain p s' where
    "mt True (lit ''regular'') p u s' \<or> mt True (Seq (lit ''gas'') (Opt (lit ''oline''))) p u s'
     \<or> mt True (lit ''diesel'') p u s'"
    by (auto simp: tableRowRe_def mt_Seq_iff)
  then consider "mt True (lit ''regular'') p u s'" | "mt True (lit ''diesel'') p u s'"
    | v w where "u = v @ w" "mt True (lit ''gas'') p v (w @ s')" "w = [] \<or> mt True (lit ''oline'') (prev p v) w s'"
    unfolding mt_Seq_iff by auto
  then show ?thesis
  proof cases
    case 1
    from mt_lit_True[OF this] show ?thesis by (simp add: toLowerCase_def lower_char_def upper_chars_def lower_chars_def)
  next
    case 2
    from mt_lit_True[OF this] show ?thesis by (simp add: toLowerCase_def lower_char_def upper_chars_def lower_chars_def)
  next
    case 3
    from mt_lit_True[OF 3(2)] have v: "toLowerCase v = ''gas''"
      by (simp add: toLowerCase_def lower_char_def upper_chars_def lower_chars_def)
    from 3(3) have "toLowerCase w = [] \<or> toLowerCase w = ''oline''"
    proof
      assume "w = []" then show ?thesis by (simp add: toLowerCase_def)
    next
      assume "mt True (lit ''oline'') (prev p v) w s'"
      from mt_lit_True[OF this] show ?thesis
        by (simp add: toLowerCase_def lower_char_def upper_chars_def lower_chars_def)
    qed
    with v 3(1) show ?thesis by (auto simp: toLowerCase_def)
  qed
qed


section \<open>The loops of parseRedditPost\<close>

text \<open>
  The rows that the table loop matches and the dollar amounts that the price loop matches,
  as lists of captures in the order of the text; with them \<open>parseRedditPost\<close> is a closed
  expression.
\<close>

definition table_rows :: "post \<Rightarrow> caps list" where
  "table_rows p = exec_all True tableRowRe (None, fullText p)"

definition price_tokens :: "post \<Rightarrow> caps list" where
  "price_tokens p = exec_all False priceRe (None, fullText p)"

definition row_type :: "caps \<Rightarrow> string" where
  "row_type m = (case grp m 1 of None \<Rightarrow> [] | Some t \<Rightarrow> toLowerCase t)"

definition is_gas_row :: "caps \<Rightarrow> bool" where
  "is_gas_row m = (row_type m \<in> set [''regular'', ''gas'', ''gasoline''])"

definition is_diesel_row :: "caps \<Rightarrow> bool" where
  "is_diesel_row m = (row_type m = ''diesel'')"

definition slot_of_row :: "caps \<Rightarrow> slot" where
  "slot_of_row m = row_slot (case grp m 2 of None \<Rightarrow> [] | Some a \<Rightarrow> a) (grp m 3)"

definition last_opt :: "'a list \<Rightarrow> 'a option" where
  "last_opt xs = (case rev xs of [] \<Rightarrow> None | x # _ \<Rightarrow> Some x)"

lemma last_opt_simps [simp]:
  "last_opt [] = None"
  "last_opt (xs @ [x]) = Some x"
  by (simp_all add: last_opt_def)

lemma last_opt_Cons: "last_opt (x # xs) = (case last_opt xs of None \<Rightarrow> Some x | Some y \<Rightarrow> Some y)"
  by (cases xs rule: rev_cases) (simp_all add: last_opt_def)

lemma table_row_of_match:
  assumes "m \<in> set (exec_all True tableRowRe q)"
  shows "(is_gas_row m \<or> is_diesel_row m) \<and>
         table_row m st = Inr (if is_diesel_row m then st\<lparr>diesel := Some (slot_of_row m)\<rparr>
                               else st\<lparr>gas := Some (slot_of_row m)\<rparr>)"
proof -
  from exec_all_caps(1)[OF assms, of 1] obtain t where t: "grp m 1 = Some t"
    by (auto simp: must_groups_tableRowRe)
  from exec_all_caps(1)[OF assms, of 2] obtain a where a: "grp m 2 = Some a"
    by (auto simp: must_groups_tableRowRe)
  from cap_tableRowRe_1[OF exec_all_caps(2)[OF assms t]]
  have "toLowerCase t \<in> {''regular'', ''gas'', ''gasoline'', ''diesel''}" .
  with t a show ?thesis
    by (auto simp: is_gas_row_def is_diesel_row_def row_type_def table_row_def slot_of_row_def Let_def)
qed

lemma run_body_table:
  assumes "set ms \<subseteq> set (exec_all True tableRowRe q)"
  shows "run_body table_row ms st =
     Inr \<lparr>gas = (case last_opt (filter is_gas_row ms) of None \<Rightarrow> gas st
                  | Some m \<Rightarrow> Some (slot_of_row m)),
          diesel = (case last_opt (filter is_diesel_row ms) of None \<Rightarrow> diesel st
                  | Some m \<Rightarrow> Some (slot_of_row m))\<rparr>"
  using assms
proof (induction ms arbitrary: st)
  case Nil
  then show ?case by simp
next
  case (Cons m ms)
  from Cons.prems have m: "m \<in> set (exec_all True tableRowRe q)"
    and ms: "set ms \<subseteq> set (exec_all True tableRowRe q)" by auto
  note tr = table_row_of_match[OF m, of st]
  have excl: "\<not> (is_gas_row m \<and> is_diesel_row m)"
    by (auto simp: is_gas_row_def is_diesel_row_def)
  show ?case
  proof (cases "is_diesel_row m")
    case True
    with excl have "\<not> is_gas_row m" by simp
    with True tr Cons.IH[OF ms] show ?thesis
      by (simp add: last_opt_Cons split: option.splits)
  next
    case False
    with tr have "is_gas_row m" by simp
    with False tr Cons.IH[OF ms] show ?thesis
      by (simp add: last_opt_Cons split: option.splits)
  qed
qed

lemma table_loop:
  "while_exec True tableRowRe table_row (None, fullText p) \<lparr>gas = None, diesel = None\<rparr> =
     Some (Inr \<lparr>gas = map_option slot_of_row (last_opt (filter is_gas_row (table_rows p))),
                diesel = map_option slot_of_row (last_opt (filter is_diesel_row (table_rows p)))\<rparr>)"
  unfolding while_exec_run_body[OF nonempty_tableRowRe] table_rows_def
  by (subst run_body_table[OF subset_refl]) (simp split: option.splits)

lemma run_body_push:
  "run_body (\<lambda>m acc. Inr (acc @ [f m])) ms acc = Inr (acc @ map f ms)"
  by (induction ms arbitrary: acc) auto

lemma price_loop:
  "while_exec False priceRe (\<lambda>pm prices. Inr (prices @ [parseFloat_grp (grp pm 1)])) (None, fullText p) []
     = Some (Inr (map (\<lambda>pm. parseFloat_grp (grp pm 1)) (price_tokens p)))"
  unfolding while_exec_run_body[OF nonempty_priceRe] price_tokens_def run_body_push by simp

lemma rows_slots:
  assumes "table_rows p \<noteq> []"
  shows "last_opt (filter is_gas_row (table_rows p)) \<noteq> None
       \<or> last_opt (filter is_diesel_row (table_rows p)) \<noteq> None"
proof -
  from assms obtain ms m where ms: "table_rows p = ms @ [m]"
    by (cases "table_rows p" rule: rev_cases) auto
  then have "m \<in> set (exec_all True tableRowRe (None, fullText p))"
    by (simp add: table_rows_def)
  from table_row_of_match[OF this] have "is_gas_row m \<or> is_diesel_row m" by simp
  with ms show ?thesis by auto
qed

lemma parse_with_rows:
  assumes "table_rows p \<noteq> []"
  shows "parseRedditPost p =
     Some (Inr \<lparr>gas = map_option slot_of_row (last_opt (filter is_gas_row (table_rows p))),
                diesel = map_option slot_of_row (last_opt (filter is_diesel_row (table_rows p))),
                notes' = extract_notes (post_selftext p)\<rparr>)"
  using rows_slots[OF assms] by (auto simp: parseRedditPost_def table_loop)

lemma parse_without_rows:
  assumes "table_rows p = []"
  shows "parseRedditPost p =
     Some (Inr (let sl = \<lparr>direction = free_text_direction (toLowerCase (fullText p)),
                         adjustment = None,
                         price = pick_price (map (\<lambda>pm. parseFloat_grp (grp pm 1)) (price_tokens p))\<rparr>
                in if test False dieselRe (toLowerCase (fullText p))
                   then \<lparr>gas = None, diesel = Some sl, notes' = extract_notes (post_selftext p)\<rparr>
                   else \<lparr>gas = Some sl, diesel = None, notes' = extract_notes (post_selftext p)\<rparr>))"
  unfolding parseRedditPost_def table_loop free_text_def price_loop
  using assms by (simp add: Let_def)


section \<open>The phrases of parseAdjustment\<close>

text \<open>
  The phrases that \<open>parseAdjustment\<close> tells apart, on strings rather than expressions:
  \<open>no\<close>, at most one character that is no line terminator, \<open>change\<close>; a leading
  \<open>up\<close> or \<open>down\<close>, whitespace and a token of digits and dots; a standalone word.
\<close>

definition no_change_phrase :: "string \<Rightarrow> bool" where
  "no_change_phrase s =
     (sublist ''nochange'' s
      \<or> (\<exists>c \<in> set s. c \<notin> set line_terminators \<and> sublist (''no'' @ [c] @ ''change'') s))"

definition is_digit_or_dot :: "char \<Rightarrow> bool" where
  "is_digit_or_dot c = (is_digit c \<or> c = CHR ''.'')"

definition number_after :: "string \<Rightarrow> string option" where
  "number_after t =
     (let tok = takeWhile is_digit_or_dot (dropWhile is_space t)
      in if takeWhile is_space t \<noteq> [] \<and> tok \<noteq> [] then Some tok else None)"

definition updown_phrase :: "string \<Rightarrow> (direction \<times> string) option" where
  "updown_phrase s =
     (if prefix ''up'' s then map_option (Pair Up) (number_after (drop 2 s))
      else if prefix ''down'' s then map_option (Pair Down) (number_after (drop 4 s))
      else None)"

definition standalone :: "string \<Rightarrow> string \<Rightarrow> bool" where
  "standalone w s =
     (\<exists>i \<in> {..length s}. take (length w) (drop i s) = w
        \<and> \<not> word_before (prev None (take i s)) \<and> \<not> word_after (drop (i + length w) s))"

declare lit.simps [simp del]

lemma sublist_iff_test: "test False (lit w) s \<longleftrightarrow> sublist w s"
  unfolding test_iff sublist_def by auto

lemma mt_Opt_Atom:
  "mt ic (Opt (Atom a)) p u s' \<longleftrightarrow> u = [] \<or> (\<exists>x. u = [x] \<and> atom_ok ic a x)"
  by (simp add: mt_Atom_iff)

lemma mt_noChangeRe:
  "mt False noChangeRe p u s' \<longleftrightarrow>
     u = ''nochange'' \<or> (\<exists>c. c \<notin> set line_terminators \<and> u = ''no'' @ [c] @ ''change'')"
proof -
  have "mt False noChangeRe p u s' \<longleftrightarrow>
      (\<exists>v w. u = v @ w \<and> v = ''no'' \<and>
         (\<exists>x y. w = x @ y \<and> (x = [] \<or> (\<exists>c. x = [c] \<and> c \<notin> set line_terminators))
          \<and> (\<exists>y1 y2. y = y1 @ y2 \<and> y1 = ''change'' \<and> y2 = [])))"
    unfolding noChangeRe_def seqs.simps mt_Seq_iff mt_lit_False mt_Opt_Atom mt.simps(2)
    by (simp only: any_char_def atom_ok.simps if_False)
  also have "\<dots> \<longleftrightarrow> u = ''nochange'' \<or> (\<exists>c. c \<notin> set line_terminators \<and> u = ''no'' @ [c] @ ''change'')"
    by auto
  finally show ?thesis .
qed

lemma test_noChangeRe: "test False noChangeRe s \<longleftrightarrow> no_change_phrase s"
proof -
  have "test False noChangeRe s \<longleftrightarrow>
      (\<exists>pre u post. s = pre @ u @ post \<and>
         (u = ''nochange'' \<or> (\<exists>c. c \<notin> set line_terminators \<and> u = ''no'' @ [c] @ ''change'')))"
    unfolding test_iff mt_noChangeRe ..
  also have "\<dots> \<longleftrightarrow> sublist ''nochange'' s
      \<or> (\<exists>c. c \<notin> set line_terminators \<and> sublist (''no'' @ [c] @ ''change'') s)"
    unfolding sublist_def by blast
  also have "\<dots> \<longleftrightarrow> no_change_phrase s"
  proof -
    have "c \<in> set s" if "sublist (''no'' @ [c] @ ''change'') s" for c
      using set_mono_sublist[OF that] by simp
    then show ?thesis unfolding no_change_phrase_def by blast
  qed
  finally show ?thesis .
qed


lemma mt_word:
  assumes "w \<noteq> []" "is_word (hd w)" "is_word (last w)"
  shows "mt False (seqs [Wordb, lit w, Wordb]) p u s' \<longleftrightarrow>
           u = w \<and> \<not> word_before p \<and> \<not> word_after s'"
proof -
  have a: "word_after (w @ s')" using assms by (cases w) (auto simp: word_after_def)
  have b: "word_before (prev p w)" using assms by (simp add: prev_def word_before_def)
  have "mt False (seqs [Wordb, lit w, Wordb]) p u s' \<longleftrightarrow>
      (\<exists>v1 w1. u = v1 @ w1 \<and> (v1 = [] \<and> word_before p \<noteq> word_after (w1 @ s'))
         \<and> (\<exists>v2 w2. w1 = v2 @ w2 \<and> v2 = w
              \<and> (\<exists>v3 w3. w2 = v3 @ w3
                    \<and> (v3 = [] \<and> word_before (prev (prev p v1) v2) \<noteq> word_after (w3 @ s'))
                    \<and> w3 = [])))"
    unfolding seqs.simps mt_Seq_iff mt_lit_False mt.simps ..
  also have "\<dots> \<longleftrightarrow> u = w \<and> word_before p \<noteq> word_after (w @ s')
                        \<and> word_before (prev p w) \<noteq> word_after s'"
    by auto
  finally show ?thesis using a b by simp
qed

lemma standalone_iff:
  "standalone w s \<longleftrightarrow>
     (\<exists>pre post. s = pre @ w @ post \<and> \<not> word_before (prev None pre) \<and> \<not> word_after post)"
proof
  assume "standalone w s"
  then obtain i where i: "i \<le> length s" "take (length w) (drop i s) = w"
    "\<not> word_before (prev None (take i s))" "\<not> word_after (drop (i + length w) s)"
    unfolding standalone_def by auto
  have "take (length w) (drop i s) @ drop (length w) (drop i s) = drop i s"
    by (rule append_take_drop_id)
  then have "take i s @ take (length w) (drop i s) @ drop (length w) (drop i s) = s"
    by (simp only: append_take_drop_id)
  with i have "s = take i s @ w @ drop (i + length w) s" by (simp add: add.commute)
  with i show "\<exists>pre post. s = pre @ w @ post \<and> \<not> word_before (prev None pre) \<and> \<not> word_after post"
    by blast
next
  assume "\<exists>pre post. s = pre @ w @ post \<and> \<not> word_before (prev None pre) \<and> \<not> word_after post"
  then obtain pre post where "s = pre @ w @ post" "\<not> word_before (prev None pre)" "\<not> word_after post"
    by blast
  then show "standalone w s"
    unfolding standalone_def by (intro bexI[of _ "length pre"]) auto
qed

lemma test_word:
  assumes "w \<noteq> []" "is_word (hd w)" "is_word (last w)"
  shows "test False (seqs [Wordb, lit w, Wordb]) s \<longleftrightarrow> standalone w s"
  unfolding test_iff mt_word[OF assms] standalone_iff by auto

lemma test_upWordRe: "test False upWordRe s \<longleftrightarrow> standalone ''up'' s"
  unfolding upWordRe_def by (rule test_word) (simp_all add: is_word_def word_chars_def)

lemma test_downWordRe: "test False downWordRe s \<longleftrightarrow> standalone ''down'' s"
  unfolding downWordRe_def by (rule test_word) (simp_all add: is_word_def word_chars_def)

subsection \<open>The first match\<close>

definition first_opt :: "'a list \<Rightarrow> 'a option" where
  "first_opt xs = (case xs of [] \<Rightarrow> None | x # _ \<Rightarrow> Some x)"

lemma first_opt_simps [simp]:
  "first_opt [] = None"
  "first_opt (x # xs) = Some x"
  "first_opt (map f xs) = map_option f (first_opt xs)"
  by (simp_all add: first_opt_def split: list.splits)

lemma rx_lit_False:
  "rx False (lit w) ((p, s), c) = (if prefix w s then [((prev p w, drop (length w) s), c)] else [])"
proof (induction w arbitrary: p s)
  case Nil
  then show ?case by (simp add: lit.simps)
next
  case (Cons x w)
  show ?case
    by (cases s) (simp_all add: lit.simps Cons.IH)
qed

lemma rx_Bol_Some: "rx ic (Seq Bol r) ((Some x, s), c) = []"
  by simp

lemma search_Bol_Some: "search ic (Seq Bol r) (Some x, s) = None"
  by (induction s arbitrary: x) simp_all

lemma search_Bol: "search ic (Seq Bol r) (None, s) = first_opt (rx ic r ((None, s), []))"
  by (cases s) (simp_all add: search_Bol_Some first_opt_def split: list.splits)

lemma star_run_greedy:
  assumes "\<And>p' x xs. P x \<Longrightarrow> f (p', x # xs) = []"
  shows "concat (map f (star_run P (p, s))) = f (prev p (takeWhile P s), dropWhile P s)"
proof (induction s arbitrary: p)
  case Nil
  then show ?case by simp
next
  case (Cons x xs)
  then show ?case using assms by simp
qed

lemma plus_run_greedy:
  assumes "\<And>p' x xs. P x \<Longrightarrow> f (p', x # xs) = []"
  shows "concat (map f (plus_run P (p, s))) =
           (if takeWhile P s = [] then [] else f (prev p (takeWhile P s), dropWhile P s))"
proof (cases s)
  case Nil
  then show ?thesis by simp
next
  case (Cons x xs)
  then show ?thesis using star_run_greedy[of P f, OF assms] by simp
qed

lemma first_opt_append:
  "first_opt (xs @ ys) = (case first_opt xs of None \<Rightarrow> first_opt ys | Some x \<Rightarrow> Some x)"
  by (cases xs) simp_all

lemma star_run_first:
  "first_opt (star_run P (p, s)) = Some (prev p (takeWhile P s), dropWhile P s)"
  by (induction s arbitrary: p) (simp_all add: first_opt_append)

lemma plus_run_first:
  "first_opt (plus_run P (p, s)) =
     (if takeWhile P s = [] then None else Some (prev p (takeWhile P s), dropWhile P s))"
  by (cases s) (simp_all add: star_run_first)


lemma ws_not_digit_or_dot: "atom_ok False ws x \<Longrightarrow> \<not> atom_ok False digit_or_dot x"
  by (auto simp: ws_def digit_or_dot_def space_chars_def digit_chars_def)

lemma atom_ok_ws [simp]: "atom_ok False ws = is_space"
  by (rule ext) (simp add: ws_def is_space_def)

lemma atom_ok_digit_or_dot [simp]: "atom_ok False digit_or_dot = is_digit_or_dot"
  by (rule ext) (auto simp: digit_or_dot_def is_digit_or_dot_def is_digit_def)

lemma atom_ok_digit [simp]: "atom_ok False digit = is_digit"
  by (rule ext) (simp add: digit_def is_digit_def)

lemma space_not_digit_or_dot: "is_space x \<Longrightarrow> \<not> is_digit_or_dot x"
  by (auto simp: is_space_def is_digit_or_dot_def is_digit_def space_chars_def digit_chars_def)

text \<open>The tail of \<open>upDownRe\<close> after the direction word: \<open>\s+([\d.]+)\<close>.\<close>

lemma number_tail:
  "first_opt (rx False (Seq (Plus ws) (Seq (Grp 2 (Plus digit_or_dot)) Eps)) ((p, t), c)) =
     map_option (\<lambda>tok. ((prev (prev p (takeWhile is_space t)) tok,
                          dropWhile is_digit_or_dot (dropWhile is_space t)), (2, tok) # c))
       (number_after t)"
proof -
  let ?f = "\<lambda>q. rx False (Seq (Grp 2 (Plus digit_or_dot)) Eps) (q, c)"
  have f: "?f (p', x # xs) = []" if "is_space x" for p' x xs
    using space_not_digit_or_dot[OF that] by simp
  have "rx False (Seq (Plus ws) (Seq (Grp 2 (Plus digit_or_dot)) Eps)) ((p, t), c)
        = concat (map ?f (plus_run is_space (p, t)))"
    by (simp add: comp_def)
  also have "\<dots> = (if takeWhile is_space t = [] then []
                     else ?f (prev p (takeWhile is_space t), dropWhile is_space t))"
    by (rule plus_run_greedy) (rule f)
  finally have 1: "rx False (Seq (Plus ws) (Seq (Grp 2 (Plus digit_or_dot)) Eps)) ((p, t), c)
     = (if takeWhile is_space t = [] then []
        else ?f (prev p (takeWhile is_space t), dropWhile is_space t))" .
  have 2: "first_opt (?f (p', t')) =
      (if takeWhile is_digit_or_dot t' = [] then None
       else Some ((prev p' (takeWhile is_digit_or_dot t'), dropWhile is_digit_or_dot t'),
                  (2, takeWhile is_digit_or_dot t') # c))" for p' t'
  proof -
    have "?f (p', t') = map (\<lambda>q. (q, (2, take (length t' - length (snd q)) t') # c))
                          (plus_run is_digit_or_dot (p', t'))"
      by (simp add: comp_def case_prod_beta)
    then show ?thesis
      by (simp add: plus_run_first del: rx.simps)
        (metis append_eq_conv_conj takeWhile_dropWhile_id length_append add_diff_cancel_right')
  qed
  show ?thesis
    unfolding 1 number_after_def Let_def
    by (simp add: 2 del: rx.simps)
qed


definition direction_word :: "direction \<Rightarrow> string" where
  "direction_word d = (case d of Up \<Rightarrow> ''up'' | Down \<Rightarrow> ''down'' | NoChange \<Rightarrow> ''no-change'')"

lemma match_upDownRe:
  "match False upDownRe s =
     map_option (\<lambda>(d, tok). [(2, tok), (1, direction_word d)]) (updown_phrase s)"
proof -
  let ?T = "seqs [Plus ws, Grp 2 (Plus digit_or_dot)]"
  let ?A = "Grp 1 (Alt (lit ''up'') (lit ''down''))"
  have nd: "\<not> (prefix ''up'' s \<and> prefix ''down'' s)" by (auto simp: prefix_def)
  have A: "rx False ?A ((None, s), []) =
      (if prefix ''up'' s then [((Some CHR ''p'', drop 2 s), [(1, ''up'')])]
       else if prefix ''down'' s then [((Some CHR ''n'', drop 4 s), [(1, ''down'')])]
       else [])"
    using nd by (auto simp: rx_lit_False prefix_def)
  have "match False upDownRe s =
      map_option snd (first_opt (concat (map (rx False ?T) (rx False ?A ((None, s), [])))))"
    unfolding match_def upDownRe_def seqs.simps(2)[of Bol] seqs.simps(2)[of ?A] search_Bol
    by (simp del: rx.simps add: rx.simps(3))
  also have "\<dots> = map_option (\<lambda>(d, tok). [(2, tok), (1, direction_word d)]) (updown_phrase s)"
    unfolding A updown_phrase_def
    by (simp del: rx.simps add: number_tail option.map_comp comp_def direction_word_def)
  finally show ?thesis .
qed

text \<open>The number that a token of digits and dots starts with.\<close>

definition leading_decimal :: "string \<Rightarrow> real option" where
  "leading_decimal tok =
     (let ip = takeWhile is_digit tok;
          fp = (case dropWhile is_digit tok of
                  [] \<Rightarrow> []
                | d # v \<Rightarrow> if d = CHR ''.'' then takeWhile is_digit v else [])
      in if ip = [] \<and> fp = [] then None
         else Some (real (digits_val ip) + real (digits_val fp) / 10 ^ length fp))"

lemma leading_decimal_nonneg: "leading_decimal tok = Some x \<Longrightarrow> 0 \<le> x"
  by (auto simp: leading_decimal_def Let_def split: if_splits)

lemma exponent_part_none:
  assumes "list_all is_digit_or_dot r"
  shows "exponent_part r = 0"
proof (cases r)
  case Nil
  then show ?thesis by (simp add: exponent_part_def)
next
  case (Cons e t)
  with assms have "is_digit_or_dot e" by simp
  then have "e \<noteq> CHR ''e'' \<and> e \<noteq> CHR ''E''"
    by (auto simp: is_digit_or_dot_def is_digit_def digit_chars_def)
  with Cons show ?thesis by (simp add: exponent_part_def)
qed

lemma list_all_dropWhile: "list_all P xs \<Longrightarrow> list_all P (dropWhile Q xs)"
  by (induction xs) auto

lemma list_all_fraction_rest:
  "list_all P r \<Longrightarrow>
   list_all P (case r of [] \<Rightarrow> [] | d # v \<Rightarrow> if d = c then dropWhile Q v else r)"
  by (cases r) (auto intro: list_all_dropWhile)

lemma parseFloat_token:
  assumes "tok \<noteq> []" "list_all is_digit_or_dot tok"
  shows "parseFloat tok = (case leading_decimal tok of None \<Rightarrow> NaN | Some x \<Rightarrow> Fin x)"
proof -
  obtain c t where tok: "tok = c # t" using assms(1) by (cases tok) auto
  with assms(2) have c: "is_digit_or_dot c" by simp
  then have c': "\<not> is_space c" "c \<noteq> CHR ''-''" "c \<noteq> CHR ''+''" "c \<noteq> CHR ''I''"
    by (auto simp: is_digit_or_dot_def is_digit_def digit_chars_def is_space_def space_chars_def)
  then have 1: "parseFloat tok = unsigned_decimal tok"
    by (simp add: parseFloat_def tok)
  have 2: "\<not> prefix ''Infinity'' tok" using c' tok by (auto simp: prefix_def)
  have "list_all is_digit_or_dot (dropWhile is_digit tok)"
    using assms(2) by (rule list_all_dropWhile)
  then have "list_all is_digit_or_dot
      (case dropWhile is_digit tok of [] \<Rightarrow> []
       | d # v \<Rightarrow> if d = CHR ''.'' then dropWhile is_digit v else dropWhile is_digit tok)"
    by (rule list_all_fraction_rest)
  then have 3: "exponent_part
      (case dropWhile is_digit tok of [] \<Rightarrow> []
       | d # v \<Rightarrow> if d = CHR ''.'' then dropWhile is_digit v else dropWhile is_digit tok) = 0"
    by (rule exponent_part_none)
  show ?thesis
    unfolding 1 unsigned_decimal_def leading_decimal_def Let_def 3
    using 2 by (simp add: exp10_def)
qed

lemma number_after_token:
  assumes "number_after t = Some tok"
  shows "tok \<noteq> []" "list_all is_digit_or_dot tok"
  using assms
  by (auto simp: number_after_def Let_def list_all_iff split: if_splits dest: set_takeWhileD)

lemma updown_phrase_token:
  assumes "updown_phrase s = Some (d, tok)"
  shows "tok \<noteq> []" "list_all is_digit_or_dot tok" "d = Up \<or> d = Down"
  using assms number_after_token
  by (auto simp: updown_phrase_def split: if_splits)

lemma parseAdjustment_cases:
  "parseAdjustment adj =
     (let s = toLowerCase (trim adj) in
      if no_change_phrase s then \<lparr>direction = Some NoChange, adjustment = Some (Fin 0)\<rparr>
      else
        case updown_phrase s of
          Some (d, tok) \<Rightarrow>
            \<lparr>direction = Some d,
             adjustment = Some (case leading_decimal tok of None \<Rightarrow> NaN | Some x \<Rightarrow> Fin x)\<rparr>
        | None \<Rightarrow>
            if standalone ''up'' s then \<lparr>direction = Some Up, adjustment = None\<rparr>
            else if standalone ''down'' s then \<lparr>direction = Some Down, adjustment = None\<rparr>
            else \<lparr>direction = None, adjustment = None\<rparr>)"
proof -
  define s where "s = toLowerCase (trim adj)"
  show ?thesis
  proof (cases "updown_phrase s")
    case None
    then show ?thesis
      unfolding parseAdjustment_def Let_def s_def[symmetric]
      by (simp add: test_noChangeRe match_upDownRe test_upWordRe test_downWordRe)
  next
    case (Some a)
    obtain d tok where a: "a = (d, tok)" by (cases a)
    note ud = updown_phrase_token[OF Some[unfolded a]]
    from ud(3) have w: "(direction_word d = ''up'') = (d = Up)"
      by (auto simp: direction_word_def)
    from ud(3) have d: "(if d = Up then Up else Down) = d" by auto
    show ?thesis
      unfolding parseAdjustment_def Let_def s_def[symmetric]
      by (simp add: test_noChangeRe match_upDownRe Some a grp_def parseFloat_grp_def
          parseFloat_token[OF ud(1,2)] w d)
  qed
qed


subsection \<open>Price tokens\<close>

definition price_token :: "string \<Rightarrow> bool" where
  "price_token u =
     (let ds = takeWhile is_digit u; fs = drop (Suc (length ds)) u
      in ds \<noteq> [] \<and> u = ds @ ''.'' @ fs \<and> list_all is_digit fs \<and> (length fs = 2 \<or> length fs = 3))"

lemma is_digit_not_dot: "is_digit x \<Longrightarrow> x \<noteq> CHR ''.''"
  by (auto simp: is_digit_def digit_chars_def)

lemma takeWhile_digits_dot:
  "list_all is_digit ds \<Longrightarrow> takeWhile is_digit (ds @ CHR ''.'' # fs) = ds"
  by (induction ds) (auto simp: is_digit_def digit_chars_def)

lemma dropWhile_digits_dot:
  "list_all is_digit ds \<Longrightarrow> dropWhile is_digit (ds @ CHR ''.'' # fs) = CHR ''.'' # fs"
  by (induction ds) (auto simp: is_digit_def digit_chars_def)

lemma takeWhile_all: "list_all P xs \<Longrightarrow> takeWhile P xs = xs"
  by (induction xs) auto

lemma cap_priceRe_1:
  assumes "cap_ok False priceRe 1 u"
  shows "price_token u"
proof -
  from assms obtain p s' where
    "mt False (seqs [Plus digit, lit ''.'', Atom digit, Atom digit, Opt (Atom digit)]) p u s'"
    by (auto simp: priceRe_def)
  then obtain ds d1 d2 r where u: "u = ds @ ''.'' @ [d1] @ [d2] @ r" and ds: "ds \<noteq> []" "list_all is_digit ds"
    and d: "is_digit d1" "is_digit d2" and r: "r = [] \<or> (\<exists>d3. r = [d3] \<and> is_digit d3)"
    unfolding seqs.simps mt_Seq_iff mt_lit_False mt_Opt_Atom mt_Atom_iff mt.simps atom_ok_digit
    by auto
  have t: "takeWhile is_digit u = ds" unfolding u using takeWhile_digits_dot[OF ds(2)] by simp
  show ?thesis
    unfolding price_token_def Let_def t using ds d r u by auto
qed

lemma parseFloat_price_token:
  assumes "price_token u"
  shows "parseFloat u = Fin (real (digits_val (takeWhile is_digit u))
            + real (digits_val (drop (Suc (length (takeWhile is_digit u))) u))
              / 10 ^ length (drop (Suc (length (takeWhile is_digit u))) u))"
proof -
  define ds where "ds = takeWhile is_digit u"
  define fs where "fs = drop (Suc (length ds)) u"
  from assms have u: "u = ds @ CHR ''.'' # fs" and ds: "ds \<noteq> []" and fs: "list_all is_digit fs"
    unfolding price_token_def Let_def ds_def fs_def by auto
  have dsd: "list_all is_digit ds" unfolding ds_def list_all_iff by (auto dest: set_takeWhileD)
  have all: "list_all is_digit_or_dot u"
    using dsd fs by (subst u) (auto simp: is_digit_or_dot_def list_all_iff)
  have ne: "u \<noteq> []" using u by simp
  have "leading_decimal u = Some (real (digits_val ds) + real (digits_val fs) / 10 ^ length fs)"
    unfolding leading_decimal_def Let_def
    by (subst (1 2 3 4 5) u) (simp add: takeWhile_digits_dot[OF dsd] dropWhile_digits_dot[OF dsd]
        takeWhile_all[OF fs] ds)
  then show ?thesis
    unfolding parseFloat_token[OF ne all] ds_def[symmetric] fs_def[symmetric] by simp
qed

lemma price_tokens_shape:
  assumes "pm \<in> set (price_tokens p)"
  shows "\<exists>u. grp pm 1 = Some u \<and> price_token u"
proof -
  from assms have m: "pm \<in> set (exec_all False priceRe (None, fullText p))"
    by (simp add: price_tokens_def)
  from exec_all_caps(1)[OF m, of 1] obtain u where u: "grp pm 1 = Some u"
    by (auto simp: must_groups_priceRe)
  from cap_priceRe_1[OF exec_all_caps(2)[OF m u]] u show ?thesis by blast
qed

subsection \<open>Notes\<close>

lemma test_Bol_lit: "test False (seqs [Bol, lit w]) s \<longleftrightarrow> prefix w s"
  unfolding test_def seqs.simps search_Bol
  by (simp add: rx_lit_False del: rx.simps add: rx.simps(2,3))

definition table_line :: "string \<Rightarrow> bool" where
  "table_line l = (prefix ''|'' (trim l) \<or> prefix '':-'' (trim l))"

definition notes_text :: "string \<Rightarrow> string" where
  "notes_text b = trim (join '' '' (filter (\<lambda>l. \<not> table_line l) (split_on (CHR 0x0A) b)))"

lemma extract_notes_eq:
  "extract_notes b = (if notes_text b = [] then None else Some (take 500 (notes_text b)))"
  unfolding extract_notes_def notes_text_def table_line_def pipeStartRe_def alignStartRe_def
    test_Bol_lit Let_def
  by simp

lemma trim_Nil [simp]: "trim [] = []"
  by (simp add: trim_def)

lemma notes_only_table_lines:
  assumes "list_all table_line (split_on (CHR 0x0A) b)"
  shows "extract_notes b = None"
proof -
  from assms have "filter (\<lambda>l. \<not> table_line l) (split_on (CHR 0x0A) b) = []"
    by (simp add: list_all_iff filter_empty_conv)
  then show ?thesis by (simp add: extract_notes_eq notes_text_def)
qed

subsection \<open>The adjustment of a slot\<close>

definition adjustment_ok :: "jsnum option \<Rightarrow> bool" where
  "adjustment_ok a = (case a of None \<Rightarrow> True | Some (Fin x) \<Rightarrow> 0 \<le> x | Some NaN \<Rightarrow> True | Some _ \<Rightarrow> False)"

lemma parseAdjustment_adjustment:
  "adjustment_ok (adjustment (parseAdjustment adj))"
  "direction (parseAdjustment adj) = Some NoChange \<Longrightarrow> adjustment (parseAdjustment adj) = Some (Fin 0)"
proof -
  define s where "s = toLowerCase (trim adj)"
  have ud: "d \<noteq> NoChange" if "updown_phrase s = Some (d, tok)" for d tok
    using updown_phrase_token(3)[OF that] by auto
  show "adjustment_ok (adjustment (parseAdjustment adj))"
    unfolding parseAdjustment_cases Let_def s_def[symmetric]
    by (auto simp: adjustment_ok_def split: option.splits dest: leading_decimal_nonneg)
  show "adjustment (parseAdjustment adj) = Some (Fin 0)"
    if "direction (parseAdjustment adj) = Some NoChange"
    using that ud unfolding parseAdjustment_cases Let_def s_def[symmetric]
    by (auto split: option.splits if_splits)
qed

lemma slot_of_row_adjustment:
  "adjustment_ok (adjustment (slot_of_row m))"
  "direction (slot_of_row m) = Some NoChange \<Longrightarrow> adjustment (slot_of_row m) = Some (Fin 0)"
  using parseAdjustment_adjustment
  by (simp_all add: slot_of_row_def row_slot_def Let_def)


section \<open>The slots of a parsed post\<close>

lemmas re_defs = noChangeRe_def upDownRe_def upWordRe_def downWordRe_def ws_def digit_def
  digit_or_dot_def any_char_def word_before_def word_after_def test_def match_def grp_def
  tableRowRe_def upFamilyRe_def downFamilyRe_def priceRe_def dieselRe_def pipeStartRe_def
  alignStartRe_def lit.simps
lemmas pf_defs = parseFloat_grp_def parseFloat_def unsigned_decimal_def digit_val_def digits_val_def
  exp10_def exponent_part_def
lemmas str_defs = char_defs toLowerCase_def trim_def

text \<open>
  C10. For every post, \<open>parseRedditPost\<close> ends and returns a record, without an error,
  in which \<open>gas\<close> or \<open>diesel\<close> is not null; when no table row matches, exactly one slot
  is assigned: \<open>diesel\<close> if the lowercased text contains \<open>diesel\<close>, \<open>gas\<close> otherwise.
\<close>

theorem parseRedditPost_fills_a_slot:
  "\<exists>r. parseRedditPost p = Some (Inr r) \<and> (gas r \<noteq> None \<or> diesel r \<noteq> None)
       \<and> (table_rows p = [] \<longrightarrow>
            (if sublist ''diesel'' (toLowerCase (fullText p))
             then gas r = None \<and> diesel r \<noteq> None else gas r \<noteq> None \<and> diesel r = None))"
proof (cases "table_rows p = []")
  case True
  show ?thesis
    unfolding parse_without_rows[OF True] Let_def
    using True by (simp add: dieselRe_def sublist_iff_test)
next
  case False
  show ?thesis
    unfolding parse_with_rows[OF False]
    using False rows_slots[OF False] by auto
qed

lemma weekly_thread_rows: "table_rows \<lparr>title = ''Weekly thread'', selftext = None\<rparr> = []"
  by code_simp

lemma weekly_thread_no_diesel:
  "\<not> sublist ''diesel'' (toLowerCase (fullText \<lparr>title = ''Weekly thread'', selftext = None\<rparr>))"
  by code_simp

theorem parseRedditPost_fills_a_slot_witness:
  "table_rows \<lparr>title = ''Weekly thread'', selftext = None\<rparr> = []
   \<and> (\<exists>r. parseRedditPost \<lparr>title = ''Weekly thread'', selftext = None\<rparr> = Some (Inr r)
          \<and> gas r \<noteq> None \<and> diesel r = None)"
  using parseRedditPost_fills_a_slot[of "\<lparr>title = ''Weekly thread'', selftext = None\<rparr>"]
    weekly_thread_rows weekly_thread_no_diesel
  by auto

text \<open>
  C4. Every row that the table loop matches names regular, gas or gasoline (a gas row)
  or diesel (a diesel row), in any letter case. When there are rows, the \<open>gas\<close> slot is
  the slot of the last gas row and the \<open>diesel\<close> slot that of the last diesel row, null
  when there is no such row: a later row overwrites an earlier one. A post with rows of
  which none is a gas row has \<open>gas\<close> null.
\<close>

theorem table_rows_last_wins:
  "(\<forall>m \<in> set (table_rows p). is_gas_row m \<or> is_diesel_row m)
   \<and> (table_rows p \<noteq> [] \<longrightarrow>
        parseRedditPost p =
          Some (Inr \<lparr>gas = map_option slot_of_row (last_opt (filter is_gas_row (table_rows p))),
                     diesel = map_option slot_of_row (last_opt (filter is_diesel_row (table_rows p))),
                     notes' = extract_notes (post_selftext p)\<rparr>))
   \<and> (table_rows p \<noteq> [] \<and> filter is_gas_row (table_rows p) = [] \<longrightarrow>
        (\<exists>r. parseRedditPost p = Some (Inr r) \<and> gas r = None \<and> diesel r \<noteq> None))"
proof (intro conjI ballI impI)
  fix m assume "m \<in> set (table_rows p)"
  then have "m \<in> set (exec_all True tableRowRe (None, fullText p))" by (simp add: table_rows_def)
  from table_row_of_match[OF this] show "is_gas_row m \<or> is_diesel_row m" by simp
next
  assume "table_rows p \<noteq> []"
  then show "parseRedditPost p =
          Some (Inr \<lparr>gas = map_option slot_of_row (last_opt (filter is_gas_row (table_rows p))),
                     diesel = map_option slot_of_row (last_opt (filter is_diesel_row (table_rows p))),
                     notes' = extract_notes (post_selftext p)\<rparr>)"
    by (rule parse_with_rows)
next
  assume a: "table_rows p \<noteq> [] \<and> filter is_gas_row (table_rows p) = []"
  then have ne: "table_rows p \<noteq> []" and g: "filter is_gas_row (table_rows p) = []" by simp_all
  from rows_slots[OF ne] g have "last_opt (filter is_diesel_row (table_rows p)) \<noteq> None" by simp
  with g show "\<exists>r. parseRedditPost p = Some (Inr r) \<and> gas r = None \<and> diesel r \<noteq> None"
    unfolding parse_with_rows[OF ne] by simp
qed

definition diesel_only_post :: post where
  "diesel_only_post = \<lparr>title = ''t'', selftext = Some ''|Diesel| UP 1 |150|''\<rparr>"

definition two_gas_rows_post :: post where
  "two_gas_rows_post = \<lparr>title = ''t'', selftext = Some ''|gas|up 1|2||Gasoline|down 3|4|''\<rparr>"

lemma diesel_only_rows:
  "table_rows diesel_only_post \<noteq> []"
  "filter is_gas_row (table_rows diesel_only_post) = []"
  by code_simp+

lemma two_gas_rows:
  "table_rows two_gas_rows_post
     = [[(3, ''2''), (2, ''up 1''), (1, ''gas'')], [(3, ''4''), (2, ''down 3''), (1, ''Gasoline'')]]"
  "last_opt (filter is_gas_row (table_rows two_gas_rows_post))
     = Some [(3, ''4''), (2, ''down 3''), (1, ''Gasoline'')]"
  "last_opt (filter is_diesel_row (table_rows two_gas_rows_post)) = None"
  "extract_notes (post_selftext two_gas_rows_post) = None"
  by code_simp+

lemma slot_down_3_4:
  "slot_of_row [(3, ''4''), (2, ''down 3''), (1, ''Gasoline'')]
     = \<lparr>direction = Some Down, adjustment = Some (Fin 3), price = Some (Fin 4)\<rparr>"
  by (simp add: slot_of_row_def row_slot_def parseAdjustment_def priceInDollars_def isNaN_def
      re_defs str_defs pf_defs)

theorem table_rows_last_wins_witness:
  "table_rows diesel_only_post \<noteq> []
   \<and> filter is_gas_row (table_rows diesel_only_post) = []
   \<and> (\<exists>r. parseRedditPost diesel_only_post = Some (Inr r) \<and> gas r = None \<and> diesel r \<noteq> None)
   \<and> table_rows two_gas_rows_post \<noteq> []
   \<and> parseRedditPost two_gas_rows_post
       = Some (Inr \<lparr>gas = Some \<lparr>direction = Some Down, adjustment = Some (Fin 3), price = Some (Fin 4)\<rparr>,
                    diesel = None, notes' = None\<rparr>)"
proof -
  have ne: "table_rows two_gas_rows_post \<noteq> []" unfolding two_gas_rows(1) by simp
  from table_rows_last_wins[of diesel_only_post] diesel_only_rows
  have 1: "\<exists>r. parseRedditPost diesel_only_post = Some (Inr r) \<and> gas r = None \<and> diesel r \<noteq> None"
    by blast
  from table_rows_last_wins[of two_gas_rows_post] ne
  have "parseRedditPost two_gas_rows_post =
      Some (Inr \<lparr>gas = map_option slot_of_row (last_opt (filter is_gas_row (table_rows two_gas_rows_post))),
                 diesel = map_option slot_of_row (last_opt (filter is_diesel_row (table_rows two_gas_rows_post))),
                 notes' = extract_notes (post_selftext two_gas_rows_post)\<rparr>)"
    by blast
  then have 2: "parseRedditPost two_gas_rows_post
       = Some (Inr \<lparr>gas = Some \<lparr>direction = Some Down, adjustment = Some (Fin 3), price = Some (Fin 4)\<rparr>,
                    diesel = None, notes' = None\<rparr>)"
    unfolding two_gas_rows(2,3,4) option.map slot_down_3_4 .
  from 1 2 ne diesel_only_rows show ?thesis by blast
qed


section \<open>The free-text fallback\<close>

definition price_texts :: "post \<Rightarrow> string option list" where
  "price_texts p = map (\<lambda>pm. grp pm 1) (price_tokens p)"

definition token_value :: "string \<Rightarrow> real" where
  "token_value u =
     (let ds = takeWhile is_digit u; fs = drop (Suc (length ds)) u
      in real (digits_val ds) + real (digits_val fs) / 10 ^ length fs)"

lemma pick_price_cases:
  "pick_price ps = (case ps of [] \<Rightarrow> None | [x] \<Rightarrow> Some x | x # y # zs \<Rightarrow> Some y)"
  by (cases ps; cases "tl ps") (auto simp: pick_price_def)

lemma price_loop_texts:
  "map (\<lambda>pm. parseFloat_grp (grp pm 1)) (price_tokens p) = map parseFloat_grp (price_texts p)"
  by (simp add: price_texts_def)

text \<open>
  C5. When no table row matches, the parser assigns exactly one slot; its adjustment is
  null, and its price is the second of the dollar amounts of the text, in the order of
  the text, when there are two or more, the only one when there is one, and null when
  there is none. Every dollar amount is, after the \<open>$\<close>, digits, a dot and two or three
  digits, and its value is that decimal number.
\<close>

theorem free_text_second_price:
  "(table_rows p = [] \<longrightarrow>
      (\<exists>r sl. parseRedditPost p = Some (Inr r)
         \<and> (gas r = Some sl \<and> diesel r = None \<or> gas r = None \<and> diesel r = Some sl)
         \<and> adjustment sl = None
         \<and> price sl = (case map parseFloat_grp (price_texts p) of
                         [] \<Rightarrow> None | [x] \<Rightarrow> Some x | x # y # zs \<Rightarrow> Some y)))
   \<and> (\<forall>t \<in> set (price_texts p).
         \<exists>u. t = Some u \<and> price_token u \<and> parseFloat_grp t = Fin (token_value u))"
proof (intro conjI impI ballI)
  assume e: "table_rows p = []"
  show "\<exists>r sl. parseRedditPost p = Some (Inr r)
         \<and> (gas r = Some sl \<and> diesel r = None \<or> gas r = None \<and> diesel r = Some sl)
         \<and> adjustment sl = None
         \<and> price sl = (case map parseFloat_grp (price_texts p) of
                         [] \<Rightarrow> None | [x] \<Rightarrow> Some x | x # y # zs \<Rightarrow> Some y)"
    unfolding parse_without_rows[OF e] Let_def price_loop_texts pick_price_cases
    by (cases "test False dieselRe (toLowerCase (fullText p))") simp_all
next
  fix t assume "t \<in> set (price_texts p)"
  then obtain pm where pm: "pm \<in> set (price_tokens p)" and t: "t = grp pm 1"
    by (auto simp: price_texts_def)
  from price_tokens_shape[OF pm] obtain u where u: "grp pm 1 = Some u" "price_token u" by blast
  from parseFloat_price_token[OF u(2)] have "parseFloat u = Fin (token_value u)"
    by (simp add: token_value_def Let_def)
  with u t show "\<exists>u. t = Some u \<and> price_token u \<and> parseFloat_grp t = Fin (token_value u)"
    by (simp add: parseFloat_grp_def)
qed

definition two_prices_post :: post where
  "two_prices_post = \<lparr>title = ''Gas: $1.659/L to $1.719/L'', selftext = Some []\<rparr>"

lemma two_prices_rows:
  "table_rows two_prices_post = []"
  "price_texts two_prices_post = [Some ''1.659'', Some ''1.719'']"
  "\<not> test False dieselRe (toLowerCase (fullText two_prices_post))"
  by code_simp+

lemma two_prices_values:
  "map parseFloat_grp [Some ''1.659'', Some ''1.719''] = [Fin 1.659, Fin 1.719]"
  by (simp add: pf_defs str_defs)

theorem free_text_second_price_witness:
  "table_rows two_prices_post = []
   \<and> (\<exists>r sl. parseRedditPost two_prices_post = Some (Inr r)
         \<and> (gas r = Some sl \<and> diesel r = None \<or> gas r = None \<and> diesel r = Some sl)
         \<and> adjustment sl = None \<and> price sl = Some (Fin 1.719))"
  using free_text_second_price[of two_prices_post]
  unfolding two_prices_rows two_prices_values
  by simp


section \<open>The notes of a post\<close>

lemma parse_notes: "\<exists>r. parseRedditPost p = Some (Inr r) \<and> notes' r = extract_notes (post_selftext p)"
proof (cases "table_rows p = []")
  case True
  show ?thesis unfolding parse_without_rows[OF True] Let_def by simp
next
  case False
  show ?thesis unfolding parse_with_rows[OF False] by simp
qed

text \<open>
  \<open>split_on\<close> cuts a text at every line feed, and only there: the pieces hold no line
  feed and give the text back with a line feed between them. \<open>join\<close> puts the separator
  between the pieces.
\<close>

lemma split_on_nonempty: "split_on d s \<noteq> []"
  by (induction s) (auto split: list.splits)

lemma split_on_no_delim: "l \<in> set (split_on d s) \<Longrightarrow> d \<notin> set l"
  by (induction s arbitrary: l) (auto split: list.splits if_splits)

lemma split_on_roundtrip:
  "concat (map (\<lambda>l. l @ [d]) (butlast (split_on d s))) @ last (split_on d s) = s"
  by (induction s) (auto simp: split_on_nonempty split: list.splits)

lemma split_on_line: "d \<notin> set l \<Longrightarrow> split_on d l = [l]"
  by (induction l) auto

lemma split_on_append: "d \<notin> set l \<Longrightarrow> split_on d (l @ d # s) = l # split_on d s"
  by (induction l) (auto simp: split_on_nonempty split: list.splits)

lemma split_on_lines:
  "ls \<noteq> [] \<Longrightarrow> \<forall>l \<in> set ls. d \<notin> set l \<Longrightarrow>
     split_on d (concat (map (\<lambda>l. l @ [d]) (butlast ls)) @ last ls) = ls"
proof (induction ls)
  case Nil
  then show ?case by simp
next
  case (Cons l ls)
  show ?case
  proof (cases "ls = []")
    case True
    with Cons.prems show ?thesis by (simp add: split_on_line)
  next
    case False
    with Cons show ?thesis by (simp add: split_on_append)
  qed
qed

lemma join_eq:
  "join sep ks = (if ks = [] then [] else concat (map (\<lambda>l. l @ sep) (butlast ks)) @ last ks)"
  by (induction sep ks rule: join.induct) simp_all

lemma notes_of_lines:
  assumes "ls \<noteq> []" "\<forall>l \<in> set ls. CHR 0x0A \<notin> set l"
  shows "notes_text (concat (map (\<lambda>l. l @ [CHR 0x0A]) (butlast ls)) @ last ls) =
     trim (if filter (\<lambda>l. \<not> table_line l) ls = [] then []
           else concat (map (\<lambda>l. l @ '' '') (butlast (filter (\<lambda>l. \<not> table_line l) ls)))
                @ last (filter (\<lambda>l. \<not> table_line l) ls))"
  unfolding notes_text_def split_on_lines[OF assms] join_eq[of "'' ''"] ..

text \<open>
  C7. Every body is a sequence of lines with a line feed between them. For every such
  sequence, the notes of the body are the lines that do not begin, after trimming, with
  \<open>|\<close> or \<open>:-\<close>, in their order and with a single space between them, trimmed, and cut
  to 500 characters. They are never the empty string: an empty text gives null, in
  particular a body of table lines only. A text of more than 500 characters gives notes
  of exactly 500 characters. \<open>parseRedditPost\<close> returns these notes for the body of the
  post.
\<close>

theorem notes_drop_table_lines:
  "(ls \<noteq> [] \<and> (\<forall>l \<in> set ls. CHR 0x0A \<notin> set l) \<longrightarrow>
      (let body = concat (map (\<lambda>l. l @ [CHR 0x0A]) (butlast ls)) @ last ls;
           kept = filter (\<lambda>l. \<not> table_line l) ls;
           t = trim (if kept = [] then []
                     else concat (map (\<lambda>l. l @ '' '') (butlast kept)) @ last kept)
       in extract_notes body = (if t = [] then None else Some (take 500 t))
          \<and> (kept = [] \<longrightarrow> extract_notes body = None)
          \<and> (length t > 500 \<longrightarrow> (\<exists>n. extract_notes body = Some n \<and> length n = 500))))
   \<and> (\<exists>ls. ls \<noteq> [] \<and> (\<forall>l \<in> set ls. CHR 0x0A \<notin> set l)
          \<and> b = concat (map (\<lambda>l. l @ [CHR 0x0A]) (butlast ls)) @ last ls)
   \<and> extract_notes b = (if notes_text b = [] then None else Some (take 500 (notes_text b)))
   \<and> extract_notes b \<noteq> Some []
   \<and> (\<forall>n. extract_notes b = Some n \<longrightarrow> length n \<le> 500)
   \<and> (length (notes_text b) > 500 \<longrightarrow> (\<exists>n. extract_notes b = Some n \<and> length n = 500))
   \<and> (list_all table_line (split_on (CHR 0x0A) b) \<longrightarrow> extract_notes b = None)
   \<and> (\<exists>r. parseRedditPost p = Some (Inr r) \<and> notes' r = extract_notes (post_selftext p))"
proof (intro conjI allI impI)
  assume "ls \<noteq> [] \<and> (\<forall>l \<in> set ls. CHR 0x0A \<notin> set l)"
  then have ls: "ls \<noteq> []" "\<forall>l \<in> set ls. CHR 0x0A \<notin> set l" by simp_all
  show "let body = concat (map (\<lambda>l. l @ [CHR 0x0A]) (butlast ls)) @ last ls;
           kept = filter (\<lambda>l. \<not> table_line l) ls;
           t = trim (if kept = [] then []
                     else concat (map (\<lambda>l. l @ '' '') (butlast kept)) @ last kept)
       in extract_notes body = (if t = [] then None else Some (take 500 t))
          \<and> (kept = [] \<longrightarrow> extract_notes body = None)
          \<and> (length t > 500 \<longrightarrow> (\<exists>n. extract_notes body = Some n \<and> length n = 500))"
    unfolding Let_def extract_notes_eq notes_of_lines[OF ls] by auto
next
  have "split_on (CHR 0x0A) b \<noteq> [] \<and> (\<forall>l \<in> set (split_on (CHR 0x0A) b). CHR 0x0A \<notin> set l)
          \<and> b = concat (map (\<lambda>l. l @ [CHR 0x0A]) (butlast (split_on (CHR 0x0A) b)))
                  @ last (split_on (CHR 0x0A) b)"
    using split_on_nonempty[of "CHR 0x0A" b] split_on_no_delim[of _ "CHR 0x0A" b]
      split_on_roundtrip[of "CHR 0x0A" b] by auto
  then show "\<exists>ls. ls \<noteq> [] \<and> (\<forall>l \<in> set ls. CHR 0x0A \<notin> set l)
          \<and> b = concat (map (\<lambda>l. l @ [CHR 0x0A]) (butlast ls)) @ last ls"
    by (rule exI)
next
  show "extract_notes b = (if notes_text b = [] then None else Some (take 500 (notes_text b)))"
    by (rule extract_notes_eq)
  show "extract_notes b \<noteq> Some []" by (simp add: extract_notes_eq)
  show "length n \<le> 500" if "extract_notes b = Some n" for n
    using that by (auto simp: extract_notes_eq split: if_splits)
  show "\<exists>n. extract_notes b = Some n \<and> length n = 500" if "length (notes_text b) > 500"
    using that by (auto simp: extract_notes_eq)
  show "extract_notes b = None" if "list_all table_line (split_on (CHR 0x0A) b)"
    using that by (rule notes_only_table_lines)
  show "\<exists>r. parseRedditPost p = Some (Inr r) \<and> notes' r = extract_notes (post_selftext p)"
    by (rule parse_notes)
qed

definition mixed_lines :: "string list" where
  "mixed_lines = [''Prices rise tonight.'', '' |Type|Price|'', '':--|:--|'', ''|Regular|162.1|'',
                  ''  See you next week.  '']"

definition mixed_body :: string where
  "mixed_body = ''Prices rise tonight.'' @ [CHR 0x0A] @ '' |Type|Price|'' @ [CHR 0x0A]
      @ '':--|:--|'' @ [CHR 0x0A] @ ''|Regular|162.1|'' @ [CHR 0x0A] @ ''  See you next week.  ''"

lemma mixed_lines_facts:
  "mixed_lines \<noteq> []"
  "\<forall>l \<in> set mixed_lines. CHR 0x0A \<notin> set l"
  "concat (map (\<lambda>l. l @ [CHR 0x0A]) (butlast mixed_lines)) @ last mixed_lines = mixed_body"
  "filter (\<lambda>l. \<not> table_line l) mixed_lines = [''Prices rise tonight.'', ''  See you next week.  '']"
  "trim ''Prices rise tonight.   See you next week.  ''
     = ''Prices rise tonight.   See you next week.''"
  by code_simp+

lemma mixed_body_notes: "extract_notes mixed_body = Some ''Prices rise tonight.   See you next week.''"
  by code_simp

definition table_only_body :: string where
  "table_only_body = ''|Type|Price|'' @ [CHR 0x0A] @ '':--|:--|'' @ [CHR 0x0A] @ '' |Regular|162.1|''"

definition long_body :: string where
  "long_body = replicate 501 (CHR ''a'')"

lemma split_on_replicate: "a \<noteq> d \<Longrightarrow> split_on d (replicate n a) = [replicate n a]"
  by (induction n) auto

lemma trim_replicate: "\<not> is_space a \<Longrightarrow> trim (replicate n a) = replicate n a"
  by (simp add: trim_def dropWhile_replicate)

lemma not_prefix_replicate: "a \<noteq> c \<Longrightarrow> \<not> prefix (c # w) (replicate n a)"
  by (cases n) auto

lemma long_body_text: "notes_text long_body = long_body"
proof -
  have 1: "split_on (CHR 0x0A) long_body = [long_body]"
    unfolding long_body_def by (rule split_on_replicate) simp
  have 2: "trim long_body = long_body"
    unfolding long_body_def by (rule trim_replicate) (simp add: is_space_def space_chars_def)
  have "\<not> prefix ''|'' long_body" "\<not> prefix '':-'' long_body"
    unfolding long_body_def by (rule not_prefix_replicate, simp)+
  then have 3: "\<not> table_line long_body"
    unfolding table_line_def 2 by simp
  have "filter (\<lambda>l. \<not> table_line l) [long_body] = [long_body]"
    using 3 by simp
  then show ?thesis
    unfolding notes_text_def 1 by (simp only: join.simps 2)
qed

lemma long_body_length: "length long_body = 501"
  unfolding long_body_def by (rule length_replicate)

lemma table_only_lines: "list_all table_line (split_on (CHR 0x0A) table_only_body)"
  by code_simp

theorem notes_drop_table_lines_witness:
  "extract_notes mixed_body = Some ''Prices rise tonight.   See you next week.''
   \<and> list_all table_line (split_on (CHR 0x0A) table_only_body)
   \<and> extract_notes table_only_body = None
   \<and> length (notes_text long_body) > 500
   \<and> (\<exists>n. extract_notes long_body = Some n \<and> length n = 500)"
proof -
  note t = notes_drop_table_lines[of mixed_lines, THEN conjunct1, rule_format,
      OF conjI, OF mixed_lines_facts(1,2)]
  from t have 0: "extract_notes mixed_body = Some ''Prices rise tonight.   See you next week.''"
    unfolding Let_def mixed_lines_facts(3,4) by (simp add: mixed_lines_facts(5))
  have l: "length (notes_text long_body) > 500"
    unfolding long_body_text long_body_length by simp
  from notes_drop_table_lines[of _ table_only_body] table_only_lines
  have 1: "extract_notes table_only_body = None" by blast
  from notes_drop_table_lines[of _ long_body] l
  have 2: "\<exists>n. extract_notes long_body = Some n \<and> length n = 500" by blast
  from 0 table_only_lines 1 l 2 show ?thesis by (intro conjI)
qed


section \<open>parseAdjustment by cases\<close>

text \<open>
  The behaviour of \<open>parseAdjustment\<close> in the words of its description: only a space, a
  hyphen or nothing between \<open>no\<close> and \<open>change\<close>, and a number after \<open>up\<close> or \<open>down\<close>.
\<close>

definition stated_no_change :: "string \<Rightarrow> bool" where
  "stated_no_change s = (sublist ''no change'' s \<or> sublist ''no-change'' s \<or> sublist ''nochange'' s)"

definition stated_parseAdjustment :: "string \<Rightarrow> adj_result" where
  "stated_parseAdjustment adj =
     (let s = toLowerCase (trim adj);
          word = (if standalone ''up'' s then \<lparr>direction = Some Up, adjustment = None\<rparr>
                  else if standalone ''down'' s then \<lparr>direction = Some Down, adjustment = None\<rparr>
                  else \<lparr>direction = None, adjustment = None\<rparr>)
      in if stated_no_change s then \<lparr>direction = Some NoChange, adjustment = Some (Fin 0)\<rparr>
         else
           case updown_phrase s of
             Some (d, tok) \<Rightarrow>
               (case leading_decimal tok of
                  Some n \<Rightarrow> \<lparr>direction = Some d, adjustment = Some (Fin n)\<rparr>
                | None \<Rightarrow> word)
           | None \<Rightarrow> word)"

lemmas adj_eval = parseAdjustment_def re_defs str_defs pf_defs

lemma no_underscore_eval:
  "parseAdjustment ''no_change'' = \<lparr>direction = Some NoChange, adjustment = Some (Fin 0)\<rparr>"
  by (simp add: adj_eval)

lemma up_dot_eval:
  "parseAdjustment ''up .'' = \<lparr>direction = Some Up, adjustment = Some NaN\<rparr>"
  by (simp add: adj_eval)

lemma stated_no_underscore:
  "stated_parseAdjustment ''no_change'' = \<lparr>direction = None, adjustment = None\<rparr>"
proof -
  have s: "toLowerCase (trim ''no_change'') = ''no_change''" by code_simp
  have 1: "\<not> stated_no_change ''no_change''" by code_simp
  have 2: "updown_phrase ''no_change'' = None" by code_simp
  have 3: "\<not> standalone ''up'' ''no_change''" "\<not> standalone ''down'' ''no_change''"
    unfolding test_upWordRe[symmetric] test_downWordRe[symmetric] by code_simp+
  show ?thesis
    unfolding stated_parseAdjustment_def Let_def s using 1 2 3 by simp
qed

lemma stated_up_dot:
  "stated_parseAdjustment ''up .'' = \<lparr>direction = Some Up, adjustment = None\<rparr>"
proof -
  have s: "toLowerCase (trim ''up .'') = ''up .''" by code_simp
  have 1: "\<not> stated_no_change ''up .''" by code_simp
  have 2: "updown_phrase ''up .'' = Some (Up, ''.'')" by code_simp
  have 3: "standalone ''up'' ''up .''"
    unfolding test_upWordRe[symmetric] by code_simp
  have 4: "leading_decimal ''.'' = None"
    by (simp add: leading_decimal_def str_defs)
  show ?thesis
    unfolding stated_parseAdjustment_def Let_def s using 1 2 3 4 by simp
qed

text \<open>
  C3, as stated, fails: the pattern \<open>/no.?change/\<close> accepts any one character between
  the two words, so \<open>no_change\<close> yields no-change with adjustment 0 and not null and
  null; and \<open>up .\<close> matches \<open>/^(up|down)\s+([\d.]+)/\<close> with a token that is no number,
  which yields the adjustment NaN and not null.
\<close>

theorem parseAdjustment_counterexample:
  "parseAdjustment ''no_change'' \<noteq> stated_parseAdjustment ''no_change''
   \<and> parseAdjustment ''no_change'' = \<lparr>direction = Some NoChange, adjustment = Some (Fin 0)\<rparr>
   \<and> parseAdjustment ''up .'' \<noteq> stated_parseAdjustment ''up .''
   \<and> parseAdjustment ''up .'' = \<lparr>direction = Some Up, adjustment = Some NaN\<rparr>"
  unfolding no_underscore_eval up_dot_eval stated_no_underscore stated_up_dot by simp

text \<open>
  C3, amended. For every phrase, lowercased and trimmed: one that contains \<open>no\<close>, at
  most one character (any but a line terminator) and \<open>change\<close> yields no-change with
  adjustment 0; else one that starts with \<open>up\<close> or \<open>down\<close>, whitespace and a token of
  digits and dots that starts with a decimal number \<open>n\<close> yields that direction with
  adjustment \<open>n\<close>; else, when it does not start with \<open>up\<close> or \<open>down\<close>, whitespace and such
  a token, one with the standalone word \<open>up\<close> yields up and null, one with the standalone
  word \<open>down\<close> yields down and null, and any other phrase yields null and null. The
  function is total, so no error is raised.
\<close>

theorem parseAdjustment_by_cases:
  "(no_change_phrase (toLowerCase (trim adj)) \<longrightarrow>
      parseAdjustment adj = \<lparr>direction = Some NoChange, adjustment = Some (Fin 0)\<rparr>)
   \<and> (\<not> no_change_phrase (toLowerCase (trim adj))
        \<and> updown_phrase (toLowerCase (trim adj)) = Some (d, tok) \<and> leading_decimal tok = Some n \<longrightarrow>
      parseAdjustment adj = \<lparr>direction = Some d, adjustment = Some (Fin n)\<rparr>)
   \<and> (\<not> no_change_phrase (toLowerCase (trim adj))
        \<and> updown_phrase (toLowerCase (trim adj)) = None
        \<and> standalone ''up'' (toLowerCase (trim adj)) \<longrightarrow>
      parseAdjustment adj = \<lparr>direction = Some Up, adjustment = None\<rparr>)
   \<and> (\<not> no_change_phrase (toLowerCase (trim adj))
        \<and> updown_phrase (toLowerCase (trim adj)) = None
        \<and> \<not> standalone ''up'' (toLowerCase (trim adj))
        \<and> standalone ''down'' (toLowerCase (trim adj)) \<longrightarrow>
      parseAdjustment adj = \<lparr>direction = Some Down, adjustment = None\<rparr>)
   \<and> (\<not> no_change_phrase (toLowerCase (trim adj))
        \<and> updown_phrase (toLowerCase (trim adj)) = None
        \<and> \<not> standalone ''up'' (toLowerCase (trim adj))
        \<and> \<not> standalone ''down'' (toLowerCase (trim adj)) \<longrightarrow>
      parseAdjustment adj = \<lparr>direction = None, adjustment = None\<rparr>)"
  unfolding parseAdjustment_cases[of adj] Let_def by simp

lemma phrase_facts:
  "no_change_phrase (toLowerCase (trim ''NO CHANGE''))"
  "no_change_phrase (toLowerCase (trim ''NO-CHANGE''))"
  "\<not> no_change_phrase (toLowerCase (trim ''  UP 3.6 ''))"
  "updown_phrase (toLowerCase (trim ''  UP 3.6 '')) = Some (Up, ''3.6'')"
  "\<not> no_change_phrase (toLowerCase (trim ''up''))"
  "updown_phrase (toLowerCase (trim ''up'')) = None"
  "\<not> no_change_phrase (toLowerCase (trim ''xyz''))"
  "updown_phrase (toLowerCase (trim ''xyz'')) = None"
  by code_simp+

lemma word_facts:
  "standalone ''up'' (toLowerCase (trim ''up''))"
  "\<not> standalone ''up'' (toLowerCase (trim ''xyz''))"
  "\<not> standalone ''down'' (toLowerCase (trim ''xyz''))"
  unfolding test_upWordRe[symmetric] test_downWordRe[symmetric] by code_simp+

lemma leading_decimal_3_6: "leading_decimal ''3.6'' = Some 3.6"
  by (simp add: leading_decimal_def str_defs pf_defs)

theorem parseAdjustment_by_cases_witness:
  "no_change_phrase (toLowerCase (trim ''NO CHANGE''))
   \<and> parseAdjustment ''NO CHANGE'' = \<lparr>direction = Some NoChange, adjustment = Some (Fin 0)\<rparr>
   \<and> no_change_phrase (toLowerCase (trim ''NO-CHANGE''))
   \<and> parseAdjustment ''NO-CHANGE'' = \<lparr>direction = Some NoChange, adjustment = Some (Fin 0)\<rparr>
   \<and> updown_phrase (toLowerCase (trim ''  UP 3.6 '')) = Some (Up, ''3.6'')
   \<and> leading_decimal ''3.6'' = Some 3.6
   \<and> parseAdjustment ''  UP 3.6 '' = \<lparr>direction = Some Up, adjustment = Some (Fin 3.6)\<rparr>
   \<and> standalone ''up'' (toLowerCase (trim ''up''))
   \<and> parseAdjustment ''up'' = \<lparr>direction = Some Up, adjustment = None\<rparr>
   \<and> parseAdjustment ''xyz'' = \<lparr>direction = None, adjustment = None\<rparr>"
proof -
  note c1 = parseAdjustment_by_cases[of "''NO CHANGE''", THEN conjunct1, rule_format,
      OF phrase_facts(1)]
  note c2 = parseAdjustment_by_cases[of "''NO-CHANGE''", THEN conjunct1, rule_format,
      OF phrase_facts(2)]
  note c3 = parseAdjustment_by_cases[of "''  UP 3.6 ''" Up "''3.6''" "3.6",
      THEN conjunct2, THEN conjunct1, rule_format,
      OF conjI[OF phrase_facts(3) conjI[OF phrase_facts(4) leading_decimal_3_6]]]
  note c4 = parseAdjustment_by_cases[of "''up''",
      THEN conjunct2, THEN conjunct2, THEN conjunct1, rule_format,
      OF conjI[OF phrase_facts(5) conjI[OF phrase_facts(6) word_facts(1)]]]
  note c5 = parseAdjustment_by_cases[of "''xyz''",
      THEN conjunct2, THEN conjunct2, THEN conjunct2, THEN conjunct2, rule_format,
      OF conjI[OF phrase_facts(7) conjI[OF phrase_facts(8) conjI[OF word_facts(2) word_facts(3)]]]]
  from phrase_facts(1) c1 phrase_facts(2) c2 phrase_facts(4) leading_decimal_3_6 c3
    word_facts(1) c4 c5
  show ?thesis by (intro conjI)
qed


section \<open>The adjustment of a stored slot\<close>

definition no_change_post :: post where
  "no_change_post = \<lparr>title = ''no change'', selftext = None\<rparr>"


lemma no_change_post_rows:
  "table_rows no_change_post = []"
  "price_texts no_change_post = []"
  "\<not> test False dieselRe (toLowerCase (fullText no_change_post))"
  "test False noChangeRe (toLowerCase (fullText no_change_post))"
  "extract_notes (post_selftext no_change_post) = None"
  by code_simp+

lemma no_change_post_parse:
  "parseRedditPost no_change_post =
     Some (Inr \<lparr>gas = Some \<lparr>direction = Some NoChange, adjustment = None, price = None\<rparr>,
                diesel = None, notes' = None\<rparr>)"
  unfolding parse_without_rows[OF no_change_post_rows(1)] Let_def price_loop_texts
    free_text_direction_def
  by (simp add: pick_price_def no_change_post_rows)


definition negative_adjustment_request :: request where
  "negative_adjustment_request = test_request ''test-secret''
     (JObj [(''gas'', JObj [(''direction'', JStr ''up''), (''adjustment'', JNum (Fin (- 5)))])])"

definition legacy_no_change_body :: json where
  "legacy_no_change_body = JObj [(''direction'', JStr ''no-change''), (''predicted_price'', JNum (Fin 1.5))]"

definition diesel_down_body :: json where
  "diesel_down_body = JObj [(''diesel'', JObj [(''direction'', JStr ''down'')])]"

lemma webhook_adjustment_eval:
  "persisted (handleWebhook test_host test_env negative_adjustment_request empty_kv)
     = Some (JObj [(''gas'', JObj [(''direction'', JStr ''up''), (''adjustment'', JNum (Fin (- 5))),
                                   (''price'', JNull)]),
                   (''diesel'', JNull), (''notes'', JNull), (''source'', JStr ''webhook''),
                   (''updated_at'', JStr ''2024-11-14T17:00:00.000Z''), (''post_id'', JNull)])"
  "persisted (handleWebhook test_host test_env (test_request ''test-secret'' legacy_no_change_body)
        empty_kv)
     = Some (JObj [(''gas'', JObj [(''direction'', JStr ''no-change''), (''adjustment'', JNull),
                                   (''price'', JNum (Fin 1.5))]),
                   (''diesel'', JNull), (''notes'', JNull), (''source'', JStr ''webhook''),
                   (''updated_at'', JStr ''2024-11-14T17:00:00.000Z''), (''post_id'', JNull)])"
  "persisted (handleWebhook test_host test_env (test_request ''test-secret'' diesel_down_body)
        empty_kv)
     = Some (JObj [(''gas'', JNull),
                   (''diesel'', JObj [(''direction'', JStr ''down''), (''adjustment'', JNull),
                                      (''price'', JNull)]),
                   (''notes'', JNull), (''source'', JStr ''webhook''),
                   (''updated_at'', JStr ''2024-11-14T17:00:00.000Z''), (''post_id'', JNull)])"
  by (simp_all add: wh_eval notes_of_def negative_adjustment_request_def legacy_no_change_body_def
      diesel_down_body_def)

lemma webhook_fixture_facts:
  "response_status (handleWebhook test_host test_env (test_request ''test-secret'' legacy_no_change_body)
        empty_kv) = Some 200"
  "json_body (test_request ''test-secret'' legacy_no_change_body) = Some legacy_no_change_body"
  "legacy_shape legacy_no_change_body"
  "response_status (handleWebhook test_host test_env (test_request ''test-secret'' diesel_down_body)
        empty_kv) = Some 200"
  "json_body (test_request ''test-secret'' diesel_down_body) = Some diesel_down_body"
  "get diesel_down_body ''diesel'' = Some (JObj [(''direction'', JStr ''down'')])"
  "truthy (JObj [(''direction'', JStr ''down'')])"
  "or_null (get (JObj [(''direction'', JStr ''down'')]) ''adjustment'') = JNull"
  by (simp_all add: wh_eval legacy_no_change_body_def diesel_down_body_def)

text \<open>
  C8, as stated, fails: the free-text fallback always stores the adjustment null, also
  with the direction no-change, as for the post titled \<open>no change\<close>; the webhook
  persists a legacy submission with the adjustment null, also with the direction
  no-change; and it accepts and persists a dual-fuel slot with the adjustment -5.
\<close>

theorem slot_invariant_counterexample:
  "parseRedditPost no_change_post =
     Some (Inr \<lparr>gas = Some \<lparr>direction = Some NoChange, adjustment = None, price = None\<rparr>,
                diesel = None, notes' = None\<rparr>)
   \<and> persisted (handleWebhook test_host test_env (test_request ''test-secret'' legacy_no_change_body)
        empty_kv)
     = Some (JObj [(''gas'', JObj [(''direction'', JStr ''no-change''), (''adjustment'', JNull),
                                   (''price'', JNum (Fin 1.5))]),
                   (''diesel'', JNull), (''notes'', JNull), (''source'', JStr ''webhook''),
                   (''updated_at'', JStr ''2024-11-14T17:00:00.000Z''), (''post_id'', JNull)])
   \<and> persisted (handleWebhook test_host test_env negative_adjustment_request empty_kv)
     = Some (JObj [(''gas'', JObj [(''direction'', JStr ''up''), (''adjustment'', JNum (Fin (- 5))),
                                   (''price'', JNull)]),
                   (''diesel'', JNull), (''notes'', JNull), (''source'', JStr ''webhook''),
                   (''updated_at'', JStr ''2024-11-14T17:00:00.000Z''), (''post_id'', JNull)])"
  using no_change_post_parse webhook_adjustment_eval(2) webhook_adjustment_eval(1)
  by (intro conjI)

lemma parsed_slot_adjustment:
  assumes "parseRedditPost p = Some (Inr r)" "gas r = Some sl \<or> diesel r = Some sl"
  shows "adjustment_ok (adjustment sl)"
    and "direction sl = Some NoChange \<Longrightarrow>
           adjustment sl = (if table_rows p = [] then None else Some (Fin 0))"
proof -
  have "adjustment_ok (adjustment sl) \<and> (direction sl = Some NoChange \<longrightarrow>
           adjustment sl = (if table_rows p = [] then None else Some (Fin 0)))"
  proof (cases "table_rows p = []")
    case True
    from assms show ?thesis
      unfolding parse_without_rows[OF True] Let_def
      by (auto simp: True adjustment_ok_def split: if_splits)
  next
    case False
    from assms obtain m where "sl = slot_of_row m"
      unfolding parse_with_rows[OF False] by auto
    with slot_of_row_adjustment[of m] False show ?thesis by simp
  qed
  then show "adjustment_ok (adjustment sl)"
    and "direction sl = Some NoChange \<Longrightarrow>
           adjustment sl = (if table_rows p = [] then None else Some (Fin 0))"
    by simp_all
qed

lemma get_stringify: "get (stringify v) k = map_option stringify (get v k)"
  by (cases v) (simp_all add: map_of_map split: jsnum.splits)

lemma legacy_slots:
  assumes "legacy_format b = Inr (g, d)"
  shows "g = JNull \<and> get d ''adjustment'' = Some JNull \<or> d = JNull \<and> get g ''adjustment'' = Some JNull"
  using assms
  by (auto simp: legacy_format_def Let_def json_defs split: if_splits option.splits)

lemma new_slots:
  assumes "new_format b = Inr (g, d)" "get b k = Some v" "truthy v"
  shows "k = ''gas'' \<Longrightarrow> get g ''adjustment'' = Some (or_null (get v ''adjustment''))"
    and "k = ''diesel'' \<Longrightarrow> get d ''adjustment'' = Some (or_null (get v ''adjustment''))"
  using assms
  by (auto simp: new_format_def validateFuelSlot_def slot_of_def json_defs split: if_splits option.splits)

lemma persisted_slots:
  assumes "\<not> secret_param req" "authenticated e req" "json_body req = Some b" "b \<noteq> JNull"
    "(if legacy_shape b then legacy_format b else new_format b) = Inr (g, d)"
  shows "\<exists>pred. persisted (handleWebhook h e req store) = Some pred
           \<and> get pred ''gas'' = Some (stringify g) \<and> get pred ''diesel'' = Some (stringify d)"
  unfolding handleWebhook_authenticated[OF assms(1-4)] assms(5)
  by (simp add: persisted_def writePrediction_def)

lemma legacy_persisted_adjustment:
  assumes "response_status (handleWebhook h e req store) = Some 200" "json_body req = Some b"
    "legacy_shape b"
  shows "\<exists>pred g d. persisted (handleWebhook h e req store) = Some pred
           \<and> get pred ''gas'' = Some g \<and> get pred ''diesel'' = Some d
           \<and> (g = JNull \<and> get d ''adjustment'' = Some JNull
              \<or> d = JNull \<and> get g ''adjustment'' = Some JNull)"
proof -
  from status_200_authenticated[OF assms(1)] assms(2) have
    a: "\<not> secret_param req" "authenticated e req" "json_body req = Some b" "b \<noteq> JNull"
    by auto
  from status_200_format[OF a assms(1)] obtain g d where
    gd: "(if legacy_shape b then legacy_format b else new_format b) = Inr (g, d)" by blast
  with assms(3) have "legacy_format b = Inr (g, d)" by simp
  from legacy_slots[OF this]
  have "stringify g = JNull \<and> get (stringify d) ''adjustment'' = Some JNull
        \<or> stringify d = JNull \<and> get (stringify g) ''adjustment'' = Some JNull"
    by (auto simp: get_stringify)
  with persisted_slots[OF a gd, of h store] show ?thesis by blast
qed

lemma dual_persisted_adjustment:
  assumes "response_status (handleWebhook h e req store) = Some 200" "json_body req = Some b"
    "get b k = Some v" "k = ''gas'' \<or> k = ''diesel''" "truthy v"
    "or_null (get v ''adjustment'') = JNull"
  shows "\<exists>pred sl. persisted (handleWebhook h e req store) = Some pred
           \<and> get pred k = Some sl \<and> get sl ''adjustment'' = Some JNull"
proof -
  from status_200_authenticated[OF assms(1)] assms(2) have
    a: "\<not> secret_param req" "authenticated e req" "json_body req = Some b" "b \<noteq> JNull"
    by auto
  from status_200_format[OF a assms(1)] obtain g d where
    gd: "(if legacy_shape b then legacy_format b else new_format b) = Inr (g, d)" by blast
  from assms(3,4) have "\<not> legacy_shape b" by (auto simp: legacy_shape_def)
  with gd have nf: "new_format b = Inr (g, d)" by simp
  from persisted_slots[OF a gd, of h store] obtain pred where
    p: "persisted (handleWebhook h e req store) = Some pred"
       "get pred ''gas'' = Some (stringify g)" "get pred ''diesel'' = Some (stringify d)" by blast
  from assms(4) show ?thesis
  proof
    assume k: "k = ''gas''"
    from new_slots(1)[OF nf assms(3,5) k] assms(6)
    have "get (stringify g) ''adjustment'' = Some JNull" by (simp add: get_stringify)
    with p k show ?thesis by blast
  next
    assume k: "k = ''diesel''"
    from new_slots(2)[OF nf assms(3,5) k] assms(6)
    have "get (stringify d) ''adjustment'' = Some JNull" by (simp add: get_stringify)
    with p k show ?thesis by blast
  qed
qed


text \<open>
  C8, amended. A slot that \<open>parseRedditPost\<close> returns never has a negative number as
  adjustment; with the direction no-change its adjustment is 0 when the slot comes from
  a table row and null when it comes from the free-text fallback. \<open>parseAdjustment\<close>
  gives the adjustment 0 with no-change and never a negative number. In the record that
  the webhook persists, a legacy submission fills one slot, with the adjustment null, and
  leaves the other slot null; and a dual-fuel slot submitted with no adjustment, absent
  or null, has the adjustment null.
\<close>

theorem slot_adjustment_invariant:
  "(parseRedditPost p = Some (Inr r) \<and> (gas r = Some sl \<or> diesel r = Some sl) \<longrightarrow>
      adjustment_ok (adjustment sl)
      \<and> (direction sl = Some NoChange \<longrightarrow>
           adjustment sl = (if table_rows p = [] then None else Some (Fin 0))))
   \<and> (direction (parseAdjustment adj) = Some NoChange \<longrightarrow>
         adjustment (parseAdjustment adj) = Some (Fin 0))
   \<and> adjustment_ok (adjustment (parseAdjustment adj))
   \<and> (response_status (handleWebhook h e req store) = Some 200 \<and> json_body req = Some b
        \<and> legacy_shape b \<longrightarrow>
         (\<exists>pred g d. persisted (handleWebhook h e req store) = Some pred
            \<and> get pred ''gas'' = Some g \<and> get pred ''diesel'' = Some d
            \<and> (g = JNull \<and> get d ''adjustment'' = Some JNull
               \<or> d = JNull \<and> get g ''adjustment'' = Some JNull)))
   \<and> (response_status (handleWebhook h e req store) = Some 200 \<and> json_body req = Some b
        \<and> get b k = Some v \<and> (k = ''gas'' \<or> k = ''diesel'') \<and> truthy v
        \<and> or_null (get v ''adjustment'') = JNull \<longrightarrow>
         (\<exists>pred s. persisted (handleWebhook h e req store) = Some pred
            \<and> get pred k = Some s \<and> get s ''adjustment'' = Some JNull))"
proof (intro conjI impI)
  assume a: "parseRedditPost p = Some (Inr r) \<and> (gas r = Some sl \<or> diesel r = Some sl)"
  then show "adjustment_ok (adjustment sl)" using parsed_slot_adjustment(1) by blast
  show "adjustment sl = (if table_rows p = [] then None else Some (Fin 0))"
    if "direction sl = Some NoChange"
    using a that parsed_slot_adjustment(2) by blast
next
  show "adjustment (parseAdjustment adj) = Some (Fin 0)"
    if "direction (parseAdjustment adj) = Some NoChange"
    using that by (rule parseAdjustment_adjustment(2))
  show "adjustment_ok (adjustment (parseAdjustment adj))" by (rule parseAdjustment_adjustment(1))
next
  assume "response_status (handleWebhook h e req store) = Some 200 \<and> json_body req = Some b
        \<and> legacy_shape b"
  then have "response_status (handleWebhook h e req store) = Some 200" "json_body req = Some b"
    "legacy_shape b" by simp_all
  then show "\<exists>pred g d. persisted (handleWebhook h e req store) = Some pred
            \<and> get pred ''gas'' = Some g \<and> get pred ''diesel'' = Some d
            \<and> (g = JNull \<and> get d ''adjustment'' = Some JNull
               \<or> d = JNull \<and> get g ''adjustment'' = Some JNull)"
    by (rule legacy_persisted_adjustment)
next
  assume "response_status (handleWebhook h e req store) = Some 200 \<and> json_body req = Some b
        \<and> get b k = Some v \<and> (k = ''gas'' \<or> k = ''diesel'') \<and> truthy v
        \<and> or_null (get v ''adjustment'') = JNull"
  then have "response_status (handleWebhook h e req store) = Some 200" "json_body req = Some b"
    "get b k = Some v" "k = ''gas'' \<or> k = ''diesel''" "truthy v"
    "or_null (get v ''adjustment'') = JNull" by simp_all
  then show "\<exists>pred s. persisted (handleWebhook h e req store) = Some pred
            \<and> get pred k = Some s \<and> get s ''adjustment'' = Some JNull"
    by (rule dual_persisted_adjustment)
qed

theorem slot_adjustment_invariant_witness:
  "parseRedditPost no_change_post =
     Some (Inr \<lparr>gas = Some \<lparr>direction = Some NoChange, adjustment = None, price = None\<rparr>,
                diesel = None, notes' = None\<rparr>)
   \<and> table_rows no_change_post = []
   \<and> adjustment_ok (adjustment \<lparr>direction = Some NoChange, adjustment = None, price = None\<rparr>)
   \<and> response_status (handleWebhook test_host test_env
        (test_request ''test-secret'' legacy_no_change_body) empty_kv) = Some 200
   \<and> legacy_shape legacy_no_change_body
   \<and> (\<exists>pred g d. persisted (handleWebhook test_host test_env
          (test_request ''test-secret'' legacy_no_change_body) empty_kv) = Some pred
        \<and> get pred ''gas'' = Some g \<and> get pred ''diesel'' = Some d
        \<and> (g = JNull \<and> get d ''adjustment'' = Some JNull
           \<or> d = JNull \<and> get g ''adjustment'' = Some JNull))
   \<and> response_status (handleWebhook test_host test_env
        (test_request ''test-secret'' diesel_down_body) empty_kv) = Some 200
   \<and> (\<exists>pred s. persisted (handleWebhook test_host test_env
          (test_request ''test-secret'' diesel_down_body) empty_kv) = Some pred
        \<and> get pred ''diesel'' = Some s \<and> get s ''adjustment'' = Some JNull)"
proof -
  note t1 = slot_adjustment_invariant[where p = no_change_post
      and r = "\<lparr>gas = Some \<lparr>direction = Some NoChange, adjustment = None, price = None\<rparr>,
                 diesel = None, notes' = None\<rparr>"
      and sl = "\<lparr>direction = Some NoChange, adjustment = None, price = None\<rparr>",
      THEN conjunct1]
  from t1 no_change_post_parse
  have 1: "adjustment_ok (adjustment \<lparr>direction = Some NoChange, adjustment = None, price = None\<rparr>)"
    by simp
  note 2 = slot_adjustment_invariant[where h = test_host and e = test_env and store = empty_kv
      and req = "test_request ''test-secret'' legacy_no_change_body" and b = legacy_no_change_body,
      THEN conjunct2, THEN conjunct2, THEN conjunct2, THEN conjunct1, rule_format,
      OF conjI, OF webhook_fixture_facts(1) conjI, OF webhook_fixture_facts(2,3)]
  have k: "''diesel'' = ''gas'' \<or> ''diesel'' = ''diesel''" by simp
  note 3 = slot_adjustment_invariant[where h = test_host and e = test_env and store = empty_kv
      and req = "test_request ''test-secret'' diesel_down_body" and b = diesel_down_body
      and k = "''diesel''" and v = "JObj [(''direction'', JStr ''down'')]",
      THEN conjunct2, THEN conjunct2, THEN conjunct2, THEN conjunct2, rule_format,
      OF conjI, OF webhook_fixture_facts(4) conjI, OF webhook_fixture_facts(5) conjI,
      OF webhook_fixture_facts(6) conjI, OF k conjI, OF webhook_fixture_facts(7,8)]
  from no_change_post_parse no_change_post_rows(1) 1 webhook_fixture_facts(1,3) 2
    webhook_fixture_facts(4) 3
  show ?thesis by (intro conjI)
qed

end
